theory Spec2Isabelle
  imports Main "HOL-Library.AList" "HOL-Library.Sublist"
begin

section \<open>Characters and tokens\<close>

text \<open>
  A Python string is a sequence of code points. The model takes \<open>char\<close> for a code point
  below 256 and classifies it as Python does there: \<open>str.isalpha\<close>, \<open>str.isnumeric\<close>,
  \<open>str.isspace\<close> and the class \<open>\w\<close> of the module \<open>re\<close> (alphanumeric or underscore).
  A token is a string.
\<close>

type_synonym token = string

definition isalpha :: "char \<Rightarrow> bool" where
  "isalpha c =
     (let n = (of_char c :: nat)
      in (65 \<le> n \<and> n \<le> 90) \<or> (97 \<le> n \<and> n \<le> 122) \<or> n = 170 \<or> n = 181 \<or> n = 186
         \<or> (192 \<le> n \<and> n \<le> 214) \<or> (216 \<le> n \<and> n \<le> 246) \<or> 248 \<le> n)"

definition isnumeric :: "char \<Rightarrow> bool" where
  "isnumeric c =
     (let n = (of_char c :: nat)
      in (48 \<le> n \<and> n \<le> 57) \<or> n = 178 \<or> n = 179 \<or> n = 185 \<or> (188 \<le> n \<and> n \<le> 190))"

definition isspace_char :: "char \<Rightarrow> bool" where
  "isspace_char c =
     (let n = (of_char c :: nat)
      in (9 \<le> n \<and> n \<le> 13) \<or> (28 \<le> n \<and> n \<le> 32) \<or> n = 133 \<or> n = 160)"

text \<open>\<open>token.isspace()\<close>: at least one character, and all of them whitespace.\<close>

definition isspace :: "token \<Rightarrow> bool" where
  "isspace t = (t \<noteq> [] \<and> list_all isspace_char t)"

text \<open>The class \<open>\w\<close> of a \<open>str\<close> pattern.\<close>

definition word_char :: "char \<Rightarrow> bool" where
  "word_char c = (isalpha c \<or> isnumeric c \<or> c = CHR ''_'')"

definition newline :: token where
  "newline = [CHR 0x0A]"

section \<open>Tokenizer\<close>

text \<open>
  \<open>re.split('([^\w])', content)\<close> cuts the text at every character that is not a word
  character and keeps the character as a piece of its own between the two pieces around
  it (which may be empty). \<open>cur\<close> is the piece read so far.
\<close>

fun re_split :: "string \<Rightarrow> string \<Rightarrow> string list" where
  "re_split cur [] = [cur]"
| "re_split cur (c # cs) =
     (if word_char c then re_split (cur @ [c]) cs else cur # [c] # re_split [] cs)"

definition fetch_tokens :: "string \<Rightarrow> token list" where
  "fetch_tokens content = filter (\<lambda>t. t \<noteq> []) (re_split [] content)"

section \<open>Token predicates\<close>

definition TYPES :: "token list" where
  "TYPES = [''int'', ''void'', ''uint16_t'', ''uint32_t'', ''uint64_t'',
            ''bool'', ''auto'', ''int32_t'', ''string'', ''vector'', ''istringstream'']"

definition KEYWORDS :: "token list" where
  "KEYWORDS = TYPES @
     [''return'', ''printf'', ''struct'', ''main'', ''std'', ''push_back'', ''back'',
      ''pop_back'', ''reserve'', ''cout'', ''__builtin_bswap64'', ''__builtin_ctzll'',
      ''const'', ''assert'', ''endl'', ''for'', ''while'', ''swap'', ''if'', ''else'',
      ''char'', ''abs'', ''getline'', ''break'', ''length'', ''switch'', ''case'', ''cin'',
      ''empty'', ''continue'', ''size'', ''default'', ''using'', ''namespace'',
      ''__builtin_popcountll'', ''stoi'', ''chrono'', ''second'', ''high_resolution_clock'',
      ''duration_cast'', ''milliseconds'', ''now'', ''max'', ''pair'', ''stable_sort'',
      ''greater'', ''min'', ''memset'', ''sizeof'']"

text \<open>\<open>token and (token[0].isalpha() or token.startswith('_'))\<close>, read as a truth value.\<close>

definition is_name :: "token \<Rightarrow> bool" where
  "is_name t = (case t of [] \<Rightarrow> False | c # _ \<Rightarrow> isalpha c \<or> c = CHR ''_'')"

definition is_keyword :: "token \<Rightarrow> bool" where
  "is_keyword t = (t \<in> set KEYWORDS)"

definition renamable :: "token \<Rightarrow> bool" where
  "renamable t = (\<not> is_keyword t \<and> is_name t)"

definition attach_eligible :: "token \<Rightarrow> bool" where
  "attach_eligible t =
     (case t of [] \<Rightarrow> False | c # _ \<Rightarrow> \<not> (is_name t \<or> isnumeric c))"

definition attachable_tokens :: "token \<Rightarrow> token \<Rightarrow> bool" where
  "attachable_tokens first second = (attach_eligible first \<or> attach_eligible second)"

section \<open>Grouper\<close>

text \<open>
  The loop of \<open>group_tokens\<close> reads \<open>token_list\<close> from \<open>start_idx\<close> on only, so the model
  keeps the rest \<open>token_list[start_idx:]\<close> and every index is relative to \<open>start_idx\<close>.
  \<open>find_end\<close> is the inner \<open>for\<close> loop: the first \<open>possible_end_idx\<close> in
  \<open>range(start_idx + len(start), len(token_list) - len(end) + 1)\<close> at which the end marker
  stands.
\<close>

definition find_end :: "token list \<Rightarrow> token list \<Rightarrow> nat \<Rightarrow> nat option" where
  "find_end toks end_m lo =
     List.find (\<lambda>p. end_m = take (length end_m) (drop p toks))
       [lo ..< Suc (length toks) - length end_m]"

definition end_index :: "token list \<Rightarrow> token list \<Rightarrow> bool \<Rightarrow> token list \<Rightarrow> nat" where
  "end_index start end_m include_end toks =
     (if length start \<le> length toks \<and> start = take (length start) toks
      then (case find_end toks end_m (length start) of
              Some p \<Rightarrow> (if include_end then p + length end_m else p)
            | None \<Rightarrow> 1)
      else 1)"

definition grouped_tokens :: "bool \<Rightarrow> nat \<Rightarrow> token list \<Rightarrow> token" where
  "grouped_tokens include_space end_idx toks =
     (let joined = concat (take end_idx toks)
      in if \<not> include_space \<and> end_idx \<noteq> 1 then filter (\<lambda>c. c \<noteq> CHR '' '') joined else joined)"

text \<open>
  With an empty start marker the loop can find \<open>end_idx = start_idx\<close>; it then repeats the
  same iteration for ever. The model returns \<open>None\<close> there.
\<close>

function group_loop ::
  "token list \<Rightarrow> token list \<Rightarrow> bool \<Rightarrow> bool \<Rightarrow> token list \<Rightarrow> token list option" where
  "group_loop start end_m include_end include_space toks =
     (if toks = [] then Some []
      else if end_index start end_m include_end toks = 0 then None
      else map_option
             (\<lambda>rest. grouped_tokens include_space (end_index start end_m include_end toks) toks # rest)
             (group_loop start end_m include_end include_space
                (drop (end_index start end_m include_end toks) toks)))"
  by pat_completeness auto
termination
  by (relation "measure (\<lambda>(start, end_m, include_end, include_space, toks). length toks)") auto

declare group_loop.simps [simp del]

definition group_tokens ::
  "token list \<Rightarrow> token list \<Rightarrow> token list \<Rightarrow> bool \<Rightarrow> bool \<Rightarrow> token list option" where
  "group_tokens token_list start end_m include_end include_space =
     group_loop start end_m include_end include_space token_list"

definition group :: "token list \<Rightarrow> token list option" where
  "group tokens =
     Option.bind (group_tokens tokens [[CHR 0x22]] [[CHR 0x22]] True True) (\<lambda>tokens.
     Option.bind (group_tokens tokens [''/'', ''*''] [''*'', ''/''] True True) (\<lambda>tokens.
     Option.bind (group_tokens tokens [''['', ''[''] ['']'', '']''] True True) (\<lambda>tokens.
     Option.bind (group_tokens tokens [''#'', ''include''] [newline] True False) (\<lambda>tokens.
     Option.bind (group_tokens tokens [''#'', ''ifndef'', '' '', ''MINIFIED''] [''#'', ''endif''] True True) (\<lambda>tokens.
     Option.bind (group_tokens tokens [''/'', ''/''] [newline] False True) (\<lambda>tokens.
     group_tokens tokens [[CHR 0x27]] [[CHR 0x27]] True True))))))"

section \<open>Stripper\<close>

definition strip_drop :: "token \<Rightarrow> bool" where
  "strip_drop t =
     (prefix ''//'' t \<or> prefix ''/*'' t \<or> prefix ''[['' t \<or> prefix ''#ifndef'' t
      \<or> t = newline \<or> isspace t \<or> t = ''const'')"

definition strip :: "token list \<Rightarrow> token list" where
  "strip tokens = filter (\<lambda>t. \<not> strip_drop t) tokens"

section \<open>Errors and dictionaries\<close>

text \<open>
  The exceptions the pipeline can raise. A function that can raise returns \<open>error + 'a\<close>.
\<close>

datatype error = KeyError | IndexError

definition bind_err :: "error + 'a \<Rightarrow> ('a \<Rightarrow> error + 'b) \<Rightarrow> error + 'b" where
  "bind_err m f = (case m of Inl e \<Rightarrow> Inl e | Inr x \<Rightarrow> f x)"

text \<open>
  A \<open>dict\<close> keeps its keys in insertion order, which the renaming passes iterate over: it
  is an association list. \<open>d[k] = v\<close> is \<open>AList.update k v d\<close> (the value is replaced in
  place, a new key is appended), \<open>k in d\<close> is \<open>has_key d k\<close>, and \<open>d[k]\<close> raises
  \<open>KeyError\<close> for a missing key.
\<close>

definition has_key :: "('k \<times> 'v) list \<Rightarrow> 'k \<Rightarrow> bool" where
  "has_key d k = (map_of d k \<noteq> None)"

definition dict_get :: "('k \<times> 'v) list \<Rightarrow> 'k \<Rightarrow> error + 'v" where
  "dict_get d k = (case map_of d k of None \<Rightarrow> Inl KeyError | Some v \<Rightarrow> Inr v)"

text \<open>\<open>if k in d: d[k] += 1\<close>\<close>

definition incr_if_present :: "('k \<times> int) list \<Rightarrow> 'k \<Rightarrow> ('k \<times> int) list" where
  "incr_if_present d k = (case map_of d k of None \<Rightarrow> d | Some v \<Rightarrow> AList.update k (v + 1) d)"

section \<open>Symbol tables\<close>

text \<open>
  The classes \<open>Function\<close> and \<open>Struct\<close> hold occurrence counts in the analyzer and
  intermediate names in the renamer, hence the type parameter.
\<close>

record 'v Function =
  args :: "(token \<times> 'v) list"
  variables :: "(token \<times> 'v) list"

record 'v Struct =
  name :: string
  fields' :: "(token \<times> 'v) list"
  functions' :: "(token \<times> 'v Function) list"
  top_lvl_used :: "token list"

definition new_Function :: "'v Function" where
  "new_Function = \<lparr>args = [], variables = []\<rparr>"

definition new_Struct :: "string \<Rightarrow> 'v Struct" where
  "new_Struct nm = \<lparr>name = nm, fields' = [], functions' = [], top_lvl_used = []\<rparr>"

text \<open>
  The key of a struct table is \<open>None\<close> (the top level) or a struct's name. The variable
  \<open>function\<close> is \<open>None\<close> or a function's name; \<open>functions[None]\<close> is a missing key.
\<close>

definition get_function ::
  "('k \<times> 'v Struct) list \<Rightarrow> 'k \<Rightarrow> token option \<Rightarrow> error + 'v Function" where
  "get_function info s f =
     bind_err (dict_get info s) (\<lambda>st.
       case f of None \<Rightarrow> Inl KeyError | Some fn \<Rightarrow> dict_get (functions' st) fn)"

text \<open>\<open>info[s] = g(info[s])\<close> and \<open>info[s].functions[f] = g(info[s].functions[f])\<close>\<close>

definition upd_struct ::
  "('k \<times> 'v Struct) list \<Rightarrow> 'k \<Rightarrow> ('v Struct \<Rightarrow> 'v Struct) \<Rightarrow> error + ('k \<times> 'v Struct) list" where
  "upd_struct info s g =
     bind_err (dict_get info s) (\<lambda>st. Inr (AList.update s (g st) info))"

definition upd_function ::
  "('k \<times> 'v Struct) list \<Rightarrow> 'k \<Rightarrow> token option \<Rightarrow> ('v Function \<Rightarrow> 'v Function)
     \<Rightarrow> error + ('k \<times> 'v Struct) list" where
  "upd_function info s f g =
     bind_err (dict_get info s) (\<lambda>st.
       case f of
         None \<Rightarrow> Inl KeyError
       | Some fn \<Rightarrow>
           bind_err (dict_get (functions' st) fn) (\<lambda>fr.
             Inr (AList.update s (st\<lparr>functions' := AList.update fn (g fr) (functions' st)\<rparr>) info)))"

section \<open>Symbol analyzer\<close>

definition is_type :: "(token option \<times> 'v) list \<Rightarrow> token option \<Rightarrow> bool" where
  "is_type info tok = ((case tok of None \<Rightarrow> False | Some t \<Rightarrow> t \<in> set TYPES) \<or> has_key info tok)"

definition preceded_by_type ::
  "(token option \<times> 'v) list \<Rightarrow> token option \<Rightarrow> token option \<Rightarrow> bool" where
  "preceded_by_type info prv prv_prv =
     (is_type info prv \<or> ((prv = Some ''>'' \<or> prv = Some ''&'') \<and> is_type info prv_prv))"

definition scope_change :: "token \<Rightarrow> token \<Rightarrow> token \<Rightarrow> int" where
  "scope_change tok opener closer =
     (if tok = opener then 1 else 0) - (if tok = closer then 1 else 0)"

text \<open>
  The local variables of the two scans. \<open>get_stats\<close> and \<open>to_ir\<close> declare the same seven;
  each adds its own.
\<close>

record scope_state =
  entering_function :: bool
  struct :: "token option"
  function' :: "token option"
  struct_scope :: int
  function_scope :: int
  parenth_depth :: int
  prev :: "token option"

record stats_state = scope_state +
  structinfo :: "(token option \<times> int Struct) list"
  prev_prev :: "token option"

text \<open>Lines 213-216 (and 362-365 of \<open>to_ir\<close>): handle exiting function.\<close>

definition exit_function :: "'a scope_state_scheme \<Rightarrow> token \<Rightarrow> 'a scope_state_scheme" where
  "exit_function s tok =
     (if \<not> entering_function s \<and> function' s \<noteq> None
      then (let s1 = s\<lparr>function_scope := function_scope s + scope_change tok ''{'' ''}''\<rparr>
            in if function_scope s1 = 0 then s1\<lparr>function' := None\<rparr> else s1)
      else s)"

text \<open>
  Lines 219-227: record args. \<open>rest\<close> is \<open>tokens[i + 1:]\<close>, so \<open>tokens[i + 1]\<close> raises
  \<open>IndexError\<close> when it is empty.
\<close>

definition record_args :: "stats_state \<Rightarrow> token \<Rightarrow> token list \<Rightarrow> error + stats_state" where
  "record_args s tok rest =
     (if entering_function s
      then bind_err
        (if tok = ''(''
         then Inr (s\<lparr>parenth_depth := parenth_depth s + 1\<rparr>)
         else if tok = '')''
         then Inr (s\<lparr>parenth_depth := parenth_depth s - 1\<rparr>)
         else if parenth_depth s > 0
         then (case rest of
                 [] \<Rightarrow> Inl IndexError
               | nxt # _ \<Rightarrow>
                   if (nxt = '','' \<or> nxt = '')'') \<and> tok \<notin> set TYPES
                   then bind_err
                          (upd_function (structinfo s) (struct s) (function' s)
                             (\<lambda>fr. fr\<lparr>args := AList.update tok 1 (args fr)\<rparr>))
                          (\<lambda>info. Inr (s\<lparr>structinfo := info\<rparr>))
                   else Inr s)
         else Inr s)
        (\<lambda>s1. Inr (if parenth_depth s1 = 0 then s1\<lparr>entering_function := False\<rparr> else s1))
      else Inr s)"

text \<open>Lines 230-234: found a function.\<close>

definition found_function :: "stats_state \<Rightarrow> token \<Rightarrow> token list \<Rightarrow> error + stats_state" where
  "found_function s tok rest =
     (let following = (case rest of [] \<Rightarrow> None | nxt # _ \<Rightarrow> Some nxt)
      in if is_name tok \<and> preceded_by_type (structinfo s) (prev s) (prev_prev s)
            \<and> following = Some ''(''
         then bind_err
                (upd_struct (structinfo s) (struct s)
                   (\<lambda>st. st\<lparr>functions' := AList.update tok new_Function (functions' st)\<rparr>))
                (\<lambda>info. Inr (s\<lparr>entering_function := True, function' := Some tok,
                                structinfo := info\<rparr>))
         else Inr s)"

text \<open>Lines 236-247: inside a function, count arguments and locals, declare locals.\<close>

definition count_in_function :: "stats_state \<Rightarrow> token \<Rightarrow> error + stats_state" where
  "count_in_function s tok =
     (if function' s \<noteq> None
      then bind_err
             (upd_function (structinfo s) (struct s) (function' s)
                (\<lambda>fr.
                   let fr1 = fr\<lparr>args := incr_if_present (args fr) tok\<rparr>;
                       fr2 = fr1\<lparr>variables := incr_if_present (variables fr1) tok\<rparr>
                   in if \<not> entering_function s \<and> is_name tok
                         \<and> preceded_by_type (structinfo s) (prev s) (prev_prev s)
                      then fr2\<lparr>variables := AList.update tok 1 (variables fr2)\<rparr>
                      else fr2))
             (\<lambda>info. Inr (s\<lparr>structinfo := info\<rparr>))
      else Inr s)"

text \<open>Lines 250-253 (and 378-381 of \<open>to_ir\<close>): exiting struct.\<close>

definition exit_struct :: "'a scope_state_scheme \<Rightarrow> token \<Rightarrow> 'a scope_state_scheme" where
  "exit_struct s tok =
     (if struct s \<noteq> None
      then (let s1 = s\<lparr>struct_scope := struct_scope s + scope_change tok ''{'' ''}''\<rparr>
            in if struct_scope s1 = 0 then s1\<lparr>struct := None\<rparr> else s1)
      else s)"

text \<open>Lines 256-258: now in a struct.\<close>

definition enter_struct :: "stats_state \<Rightarrow> token \<Rightarrow> stats_state" where
  "enter_struct s tok =
     (if prev s = Some ''struct''
      then s\<lparr>struct := Some tok,
             structinfo := AList.update (Some tok) (new_Struct tok) (structinfo s)\<rparr>
      else s)"

text \<open>Lines 261-262: found a struct field.\<close>

definition found_field :: "stats_state \<Rightarrow> token \<Rightarrow> error + stats_state" where
  "found_field s tok =
     (if struct_scope s = 1 \<and> is_name tok \<and> function' s = None
         \<and> preceded_by_type (structinfo s) (prev s) (prev_prev s)
      then bind_err
             (upd_struct (structinfo s) (struct s)
                (\<lambda>st. st\<lparr>fields' := AList.update tok 1 (fields' st)\<rparr>))
             (\<lambda>info. Inr (s\<lparr>structinfo := info\<rparr>))
      else Inr s)"

text \<open>Lines 264-265: count a field.\<close>

definition count_field :: "stats_state \<Rightarrow> token \<Rightarrow> error + stats_state" where
  "count_field s tok =
     bind_err
       (upd_struct (structinfo s) (struct s)
          (\<lambda>st. st\<lparr>fields' := incr_if_present (fields' st) tok\<rparr>))
       (\<lambda>info. Inr (s\<lparr>structinfo := info\<rparr>))"

text \<open>Lines 267-269: record what top level functions are used in each struct.\<close>

definition record_top_level :: "stats_state \<Rightarrow> token \<Rightarrow> error + stats_state" where
  "record_top_level s tok =
     bind_err (dict_get (structinfo s) None) (\<lambda>top.
       if has_key (functions' top) tok
       then bind_err (dict_get (structinfo s) (struct s)) (\<lambda>st.
              if tok \<notin> set (top_lvl_used st) \<and> struct s \<noteq> None
              then bind_err
                     (upd_struct (structinfo s) (struct s)
                        (\<lambda>st. st\<lparr>top_lvl_used := top_lvl_used st @ [tok]\<rparr>))
                     (\<lambda>info. Inr (s\<lparr>structinfo := info\<rparr>))
              else Inr s)
       else Inr s)"

text \<open>One iteration of the loop of \<open>get_stats\<close>, for \<open>tokens[i] = tok\<close> and \<open>tokens[i + 1:] = rest\<close>.\<close>

definition get_stats_step :: "stats_state \<Rightarrow> token \<Rightarrow> token list \<Rightarrow> error + stats_state" where
  "get_stats_step s tok rest =
     bind_err (record_args (exit_function s tok) tok rest) (\<lambda>s.
     bind_err (found_function s tok rest) (\<lambda>s.
     bind_err (count_in_function s tok) (\<lambda>s.
     bind_err (found_field (enter_struct (exit_struct s tok) tok) tok) (\<lambda>s.
     bind_err (count_field s tok) (\<lambda>s.
     bind_err (record_top_level s tok) (\<lambda>s.
     Inr (s\<lparr>prev_prev := prev s, prev := Some tok\<rparr>)))))))"

fun get_stats_loop :: "stats_state \<Rightarrow> token list \<Rightarrow> error + stats_state" where
  "get_stats_loop s [] = Inr s"
| "get_stats_loop s (tok # rest) =
     bind_err (get_stats_step s tok rest) (\<lambda>s1. get_stats_loop s1 rest)"

definition get_stats_init :: stats_state where
  "get_stats_init =
     \<lparr>entering_function = False, struct = None, function' = None, struct_scope = 0,
      function_scope = 0, parenth_depth = 0, prev = None,
      structinfo = [(None, new_Struct ''Top Level'')], prev_prev = None\<rparr>"

definition get_stats :: "token list \<Rightarrow> error + (token option \<times> int Struct) list" where
  "get_stats tokens = bind_err (get_stats_loop get_stats_init tokens) (\<lambda>s. Inr (structinfo s))"

section \<open>Renamer, IR stage\<close>

text \<open>\<open>str(i)\<close> of a natural number: its decimal digits.\<close>

fun str :: "nat \<Rightarrow> string" where
  "str n = (if n < 10 then [char_of (48 + n)] else str (n div 10) @ [char_of (48 + n mod 10)])"

declare str.simps [simp del]

text \<open>
  \<open>sorted\<close> is stable, and so is \<open>sort_key\<close>: items of equal count keep their order.
\<close>

definition sort_dict :: "('k \<times> int) list \<Rightarrow> ('k \<times> int) list" where
  "sort_dict dictionary = sort_key (\<lambda>item. - snd item) dictionary"

text \<open>Lines 303-312: choose struct field names; \<open>flds\<close> is the dictionary \<open>fields\<close>.\<close>

fun fields_loop ::
  "token list \<Rightarrow> nat \<Rightarrow> (token \<times> string) list \<Rightarrow> (token \<times> string) list
     \<Rightarrow> (token \<times> string) list \<times> (token \<times> string) list" where
  "fields_loop [] j ir_fields flds = (ir_fields, flds)"
| "fields_loop (field # rest) j ir_fields flds =
     (case map_of flds field of
        Some nm \<Rightarrow> fields_loop rest j (AList.update field nm ir_fields) flds
      | None \<Rightarrow>
          (let fieldname = ''field'' @ str j
           in fields_loop rest (j + 1) (AList.update field fieldname ir_fields)
                (AList.update field fieldname flds)))"

text \<open>\<open>for y, k in enumerate(ks): d[k] = pre + str(y)\<close>, from an empty \<open>d\<close>.\<close>

definition number_names :: "string \<Rightarrow> token list \<Rightarrow> (token \<times> string) list" where
  "number_names pre ks =
     fold (\<lambda>(y, k) d. AList.update k (pre @ str y) d) (List.enumerate 0 ks) []"

text \<open>Lines 319-330: the intermediate names of one function's arguments and locals.\<close>

definition ir_function :: "int Function \<Rightarrow> string Function" where
  "ir_function fr =
     \<lparr>args = number_names ''arg'' (map fst (sort_dict (args fr))),
      variables = number_names ''var'' (map fst (sort_dict (variables fr)))\<rparr>"

text \<open>Lines 315-330: choose function names, for the functions of \<open>structinfo[struct]\<close>.\<close>

definition functions_step ::
  "token option \<Rightarrow> nat \<times> token \<times> int Function
     \<Rightarrow> (token \<times> string Function) list \<times> (token \<times> string) list
     \<Rightarrow> (token \<times> string Function) list \<times> (token \<times> string) list" where
  "functions_step strct item acc =
     (case (item, acc) of
        ((x, func, fr), (ir_functions, methods)) \<Rightarrow>
          (AList.update func (ir_function fr) ir_functions,
           if strct \<noteq> None then AList.update func (''func'' @ str x) methods else methods))"

text \<open>
  Lines 299-333: one struct of \<open>structinfo\<close>, the \<open>i\<close>-th of the dictionary. The state is
  \<open>ir\<close>, \<open>fields\<close>, \<open>methods\<close> and \<open>top_lvl_used\<close> (a set, kept as the list of its members).
\<close>

definition ir_struct_step ::
  "nat \<times> token option \<times> int Struct
     \<Rightarrow> (token option \<times> string Struct) list \<times> (token \<times> string) list \<times> (token \<times> string) list
         \<times> token list
     \<Rightarrow> (token option \<times> string Struct) list \<times> (token \<times> string) list \<times> (token \<times> string) list
         \<times> token list" where
  "ir_struct_step item acc =
     (case (item, acc) of
        ((i, strct, st), (ir, flds, methods, used)) \<Rightarrow>
          (case fields_loop (map fst (sort_dict (fields' st))) 0 [] flds of
             (ir_fields, flds1) \<Rightarrow>
               (case fold (functions_step strct) (List.enumerate 0 (functions' st)) ([], methods) of
                  (ir_functions, methods1) \<Rightarrow>
                    (AList.update strct
                       \<lparr>name = ''struct'' @ str i, fields' = ir_fields,
                        functions' = ir_functions, top_lvl_used = []\<rparr> ir,
                     flds1, methods1, used @ top_lvl_used st))))"

text \<open>Lines 335-344: the names of the top-level functions.\<close>

fun top_loop ::
  "token list \<Rightarrow> token list \<Rightarrow> nat \<Rightarrow> nat \<Rightarrow> (token \<times> string) list \<Rightarrow> (token \<times> string) list" where
  "top_loop [] used i j methods = methods"
| "top_loop (func # rest) used i j methods =
     (if func \<in> set used
      then top_loop rest used (i + 1) j (AList.update func (''topfunc'' @ str i) methods)
      else if has_key methods func
      then top_loop rest used i j methods
      else top_loop rest used i (j + 1)
             (AList.update func (if func = ''main'' then ''main'' else ''func'' @ str j) methods))"

definition get_ir_renames ::
  "(token option \<times> int Struct) list
     \<Rightarrow> error + ((token option \<times> string Struct) list \<times> (token \<times> string) list
                 \<times> (token \<times> string) list)" where
  "get_ir_renames info =
     (case fold ir_struct_step (List.enumerate 0 info) ([], [], [], []) of
        (ir, flds, methods, used) \<Rightarrow>
          bind_err (dict_get info None) (\<lambda>top.
            Inr (ir, flds, top_loop (map fst (functions' top)) used 0 0 methods)))"

text \<open>The second scan, \<open>to_ir\<close>.\<close>

record ir_state = scope_state +
  new_tokens :: "token list"

text \<open>Lines 367-375: the parameter list, and entering a function.\<close>

definition ir_args :: "ir_state \<Rightarrow> token \<Rightarrow> ir_state" where
  "ir_args s tok =
     (if entering_function s
      then (let s1 = s\<lparr>parenth_depth := parenth_depth s + scope_change tok ''('' '')''\<rparr>
            in if parenth_depth s1 = 0 then s1\<lparr>entering_function := False\<rparr> else s1)
      else s)"

definition ir_enter_function :: "(token \<times> string) list \<Rightarrow> ir_state \<Rightarrow> token \<Rightarrow> ir_state" where
  "ir_enter_function methods s tok =
     (if has_key methods tok \<and> function' s = None
      then s\<lparr>function' := Some tok, entering_function := True\<rparr>
      else s)"

text \<open>Lines 383-385: the struct's name.\<close>

definition ir_enter_struct :: "ir_state \<Rightarrow> token \<Rightarrow> ir_state" where
  "ir_enter_struct s tok = (if prev s = Some ''struct'' then s\<lparr>struct := Some tok\<rparr> else s)"

text \<open>
  Lines 387-395: rename if appropriate. \<open>in_scoped sel\<close> is the condition
  \<open>function is not None and token in ir[struct].functions[function].sel\<close>, which raises
  \<open>KeyError\<close> when \<open>ir\<close> has no such struct or the struct no such function.
\<close>

definition in_scoped ::
  "(token option \<times> string Struct) list \<Rightarrow> token option \<Rightarrow> token option
     \<Rightarrow> (string Function \<Rightarrow> (token \<times> string) list) \<Rightarrow> token \<Rightarrow> error + bool" where
  "in_scoped ir strct fn sel tok =
     (if fn \<noteq> None
      then bind_err (get_function ir strct fn) (\<lambda>fr. Inr (has_key (sel fr) tok))
      else Inr False)"

definition scoped_get ::
  "(token option \<times> string Struct) list \<Rightarrow> token option \<Rightarrow> token option
     \<Rightarrow> (string Function \<Rightarrow> (token \<times> string) list) \<Rightarrow> token \<Rightarrow> error + string" where
  "scoped_get ir strct fn sel tok =
     bind_err (get_function ir strct fn) (\<lambda>fr. dict_get (sel fr) tok)"

definition ir_rename ::
  "(token option \<times> string Struct) list \<Rightarrow> (token \<times> string) list \<Rightarrow> (token \<times> string) list
     \<Rightarrow> token option \<Rightarrow> token option \<Rightarrow> token \<Rightarrow> error + token" where
  "ir_rename ir flds methods strct fn tok =
     bind_err (in_scoped ir strct fn args tok) (\<lambda>c1.
       if c1 then scoped_get ir strct fn args tok
       else if has_key flds tok then dict_get flds tok
       else if has_key methods tok then dict_get methods tok
       else bind_err (in_scoped ir strct fn variables tok) (\<lambda>c4.
         if c4 then scoped_get ir strct fn variables tok
         else Inr tok))"

definition to_ir_step ::
  "(token option \<times> string Struct) list \<Rightarrow> (token \<times> string) list \<Rightarrow> (token \<times> string) list
     \<Rightarrow> ir_state \<Rightarrow> token \<Rightarrow> error + ir_state" where
  "to_ir_step ir flds methods s tok =
     (let s1 = ir_enter_struct
                 (exit_struct (ir_enter_function methods (ir_args (exit_function s tok) tok) tok) tok)
                 tok
      in bind_err (ir_rename ir flds methods (struct s1) (function' s1) tok) (\<lambda>renamed.
           Inr (s1\<lparr>prev := Some renamed, new_tokens := new_tokens s1 @ [renamed]\<rparr>)))"

fun to_ir_loop ::
  "(token option \<times> string Struct) list \<Rightarrow> (token \<times> string) list \<Rightarrow> (token \<times> string) list
     \<Rightarrow> ir_state \<Rightarrow> token list \<Rightarrow> error + ir_state" where
  "to_ir_loop ir flds methods s [] = Inr s"
| "to_ir_loop ir flds methods s (tok # rest) =
     bind_err (to_ir_step ir flds methods s tok) (\<lambda>s1. to_ir_loop ir flds methods s1 rest)"

definition to_ir_init :: ir_state where
  "to_ir_init =
     \<lparr>entering_function = False, struct = None, function' = None, struct_scope = 0,
      function_scope = 0, parenth_depth = 0, prev = None, new_tokens = []\<rparr>"

definition to_ir ::
  "token list \<Rightarrow> (token option \<times> string Struct) list \<Rightarrow> (token \<times> string) list
     \<Rightarrow> (token \<times> string) list \<Rightarrow> error + token list" where
  "to_ir tokens ir flds methods =
     bind_err (to_ir_loop ir flds methods to_ir_init tokens) (\<lambda>s. Inr (new_tokens s))"

section \<open>Renamer, final stage\<close>

text \<open>The module's globals \<open>names\<close>, \<open>counter\<close> and \<open>resets\<close>, and their values at load.\<close>

record namer =
  names :: "token \<rightharpoonup> string"
  counter :: nat
  resets :: nat

definition namer_init :: namer where
  "namer_init = \<lparr>names = Map.empty, counter = 65, resets = 0\<rparr>"

definition generate_name :: "token \<Rightarrow> namer \<Rightarrow> string \<times> namer" where
  "generate_name tok g =
     (case names g tok of
        Some nm \<Rightarrow> (nm, g)
      | None \<Rightarrow>
          (let nm = replicate (resets g + 1) (char_of (counter g));
               g1 = g\<lparr>names := (names g)(tok \<mapsto> nm)\<rparr>;
               g2 = (if counter g1 = 90 then g1\<lparr>counter := 96\<rparr> else g1);
               g3 = g2\<lparr>counter := counter g2 + 1\<rparr>
           in (nm, if counter g3 > 122 then g3\<lparr>counter := 65, resets := resets g3 + 1\<rparr> else g3)))"

text \<open>Lines 407-411: one token of the loop of \<open>get_frequencies\<close>.\<close>

definition count_step :: "token \<Rightarrow> (token \<times> int) list \<Rightarrow> (token \<times> int) list" where
  "count_step tok freq =
     (if \<not> renamable tok then freq
      else AList.update tok (case map_of freq tok of Some c \<Rightarrow> c + 1 | None \<Rightarrow> 1) freq)"

definition get_frequencies :: "token list \<Rightarrow> (token \<times> int) list" where
  "get_frequencies tokens = sort_dict (fold count_step tokens [])"

text \<open>Lines 455-461: the fixed entries of \<open>names\<close>.\<close>

definition fixed_names :: "namer \<Rightarrow> namer" where
  "fixed_names g =
     fold (\<lambda>kw g. g\<lparr>names := (names g)(kw \<mapsto> kw)\<rparr>) KEYWORDS
       (g\<lparr>names := (names g)(''true'' \<mapsto> ''1'', ''false'' \<mapsto> ''0'')\<rparr>)"

text \<open>Lines 463-466: generate names in order of frequency; \<open>assign_step\<close> is the loop's body.\<close>

definition assign_step :: "token \<Rightarrow> namer \<Rightarrow> namer" where
  "assign_step tok g =
     (case generate_name tok g of (nm, g1) \<Rightarrow> g1\<lparr>names := (names g1)(tok \<mapsto> nm)\<rparr>)"

definition assign_names :: "token list \<Rightarrow> namer \<Rightarrow> namer" where
  "assign_names keys g = fold assign_step keys g"

text \<open>The table \<open>names\<close> when the emission loop starts, for the IR stream \<open>tokens\<close>.\<close>

definition final_namer :: "token list \<Rightarrow> namer" where
  "final_namer tokens = assign_names (map fst (get_frequencies tokens)) (fixed_names namer_init)"

section \<open>Emitter\<close>

text \<open>\<open>prev and not attachable_tokens(prev, token)\<close>, lines 433 and 471.\<close>

definition needs_space :: "token option \<Rightarrow> token \<Rightarrow> bool" where
  "needs_space prv tok =
     (case prv of None \<Rightarrow> False | Some p \<Rightarrow> p \<noteq> [] \<and> \<not> attachable_tokens p tok)"

text \<open>Lines 430-436: the text of the intermediate representation.\<close>

fun ir_text_loop :: "token option \<Rightarrow> token list \<Rightarrow> token list" where
  "ir_text_loop prv [] = []"
| "ir_text_loop prv (tok # rest) =
     (if needs_space prv tok then ['' ''] else []) @ tok # ir_text_loop (Some tok) rest"

text \<open>Lines 474-476: a renamable token is mangled; \<open>names[token]\<close> can raise.\<close>

definition mangle :: "(token \<rightharpoonup> string) \<Rightarrow> token \<Rightarrow> error + token" where
  "mangle nms tok =
     (if renamable tok
      then (case nms tok of None \<Rightarrow> Inl KeyError | Some nm \<Rightarrow> Inr nm)
      else Inr tok)"

text \<open>Lines 468-479: the final token list.\<close>

fun final_loop :: "(token \<rightharpoonup> string) \<Rightarrow> token option \<Rightarrow> token list \<Rightarrow> error + token list" where
  "final_loop nms prv [] = Inr []"
| "final_loop nms prv (tok # rest) =
     bind_err (mangle nms tok) (\<lambda>mangled.
     bind_err (final_loop nms (Some mangled) rest) (\<lambda>out.
       Inr ((if needs_space prv tok then ['' ''] else []) @ mangled # out)))"

definition final_stage :: "token list \<Rightarrow> error + token list" where
  "final_stage tokens = final_loop (names (final_namer tokens)) None tokens"

section \<open>The pipeline\<close>

text \<open>
  \<open>minify\<close> writes two files; the model returns their contents, the intermediate
  representation first. \<open>None\<close> is a run that does not return, \<open>Some (Inl e)\<close> one that
  raises \<open>e\<close>.
\<close>

definition analyse :: "token list \<Rightarrow> error + token list" where
  "analyse tokens =
     bind_err (get_stats tokens) (\<lambda>info.
     bind_err (get_ir_renames info) (\<lambda>(ir, flds, methods).
     to_ir tokens ir flds methods))"

definition minify :: "string \<Rightarrow> (error + string \<times> string) option" where
  "minify content =
     map_option
       (\<lambda>grouped.
          bind_err (analyse (strip grouped)) (\<lambda>tokens.
          bind_err (final_stage tokens) (\<lambda>out.
            Inr (concat (ir_text_loop None tokens), concat out))))
       (group (fetch_tokens content))"

section \<open>Notions of the specification\<close>

text \<open>
  The sequence A..Z then a..z, the code of the 1-based rank \<open>r\<close> (the letter at position
  \<open>(r - 1) mod 52\<close>, repeated \<open>1 + (r - 1) div 52\<close> times), and the keys of the frequency
  table that get a freshly generated code: those that \<open>names\<close> does not hold before the
  loop of lines 465-466.
\<close>

definition alphabet :: string where
  "alphabet = ''ABCDEFGHIJKLMNOPQRSTUVWXYZabcdefghijklmnopqrstuvwxyz''"

definition rank_code :: "nat \<Rightarrow> string" where
  "rank_code r = replicate (1 + (r - 1) div 52) (alphabet ! ((r - 1) mod 52))"

definition fresh_keys :: "token list \<Rightarrow> token list" where
  "fresh_keys tokens =
     filter (\<lambda>t. names (fixed_names namer_init) t = None) (map fst (get_frequencies tokens))"

text \<open>
  The order of codes: a code is ranked earlier than another when it is strictly shorter,
  or of equal length and lexicographically earlier in the order of \<open>alphabet\<close>.
\<close>

fun pos_in :: "'a list \<Rightarrow> 'a \<Rightarrow> nat option" where
  "pos_in [] c = None"
| "pos_in (x # xs) c = (if x = c then Some 0 else map_option Suc (pos_in xs c))"

definition letter_pos :: "char \<Rightarrow> nat option" where
  "letter_pos c = pos_in alphabet c"

fun lex_before :: "string \<Rightarrow> string \<Rightarrow> bool" where
  "lex_before [] [] = False"
| "lex_before [] (y # ys) = True"
| "lex_before (x # xs) [] = False"
| "lex_before (x # xs) (y # ys) =
     (case (letter_pos x, letter_pos y) of
        (Some i, Some j) \<Rightarrow> i < j \<or> (i = j \<and> lex_before xs ys)
      | _ \<Rightarrow> False)"

definition earlier_code :: "string \<Rightarrow> string \<Rightarrow> bool" where
  "earlier_code c d = (length c < length d \<or> (length c = length d \<and> lex_before c d))"

text \<open>
  A token is merge-sensitive when it is name-like or its leading character is numeric.
  \<open>spaced\<close> puts one space between two adjacent tokens exactly when both are
  merge-sensitive.
\<close>

definition merge_sensitive :: "token \<Rightarrow> bool" where
  "merge_sensitive t = (case t of [] \<Rightarrow> False | c # _ \<Rightarrow> is_name t \<or> isnumeric c)"

fun spaced :: "token list \<Rightarrow> token list" where
  "spaced [] = []"
| "spaced [t] = [t]"
| "spaced (a # b # rest) =
     a # (if merge_sensitive a \<and> merge_sensitive b then ['' ''] else []) @ spaced (b # rest)"

text \<open>
  The list the final loop builds when \<open>outs\<close> are the mangled tokens of \<open>toks\<close>, in
  order: each is preceded by a space where the loop's test (line 471) asks for one.
\<close>

fun interleave :: "token option \<Rightarrow> token list \<Rightarrow> token list \<Rightarrow> token list" where
  "interleave prv (tok # rest) (m # ms) =
     (if needs_space prv tok then ['' ''] else []) @ m # interleave (Some m) rest ms"
| "interleave prv toks outs = []"

text \<open>
  The lookup order of the IR substitution: the argument table of the active (struct,
  function) pair, then the global field table, then the global function table, then the
  local table of the active pair; a token that no table holds stays as it is.
  \<open>scoped_table\<close> is a table of the active pair, empty when no function is active.
\<close>

definition scoped_table ::
  "(token option \<times> string Struct) list \<Rightarrow> token option \<Rightarrow> token option
     \<Rightarrow> (string Function \<Rightarrow> (token \<times> string) list) \<Rightarrow> token \<rightharpoonup> string" where
  "scoped_table ir strct fn sel =
     (case get_function ir strct fn of Inl e \<Rightarrow> Map.empty | Inr fr \<Rightarrow> map_of (sel fr))"

definition lookup_order ::
  "(token \<rightharpoonup> string) \<Rightarrow> (token \<rightharpoonup> string) \<Rightarrow> (token \<rightharpoonup> string) \<Rightarrow> (token \<rightharpoonup> string)
     \<Rightarrow> token \<Rightarrow> token" where
  "lookup_order scoped_args flds methods scoped_vars tok =
     (case scoped_args tok of
        Some v \<Rightarrow> v
      | None \<Rightarrow>
          (case flds tok of
             Some v \<Rightarrow> v
           | None \<Rightarrow>
               (case methods tok of
                  Some v \<Rightarrow> v
                | None \<Rightarrow> (case scoped_vars tok of Some v \<Rightarrow> v | None \<Rightarrow> tok))))"

text \<open>
  The top-level functions referenced from within a struct (the members of the lists
  \<open>top_lvl_used\<close>), and the names of the functions owned by a struct.
\<close>

definition used_in_structs :: "(token option \<times> 'v Struct) list \<Rightarrow> token list" where
  "used_in_structs info = concat (map (\<lambda>item. top_lvl_used (snd item)) info)"

definition struct_methods :: "(token option \<times> 'v Struct) list \<Rightarrow> token list" where
  "struct_methods info =
     concat (map (\<lambda>item. if fst item = None then [] else map fst (functions' (snd item))) info)"

section \<open>Invariants\<close>

text \<open>Tables whose values are non-empty strings.\<close>

definition nonempty_values :: "('k \<times> string) list \<Rightarrow> bool" where
  "nonempty_values d = (\<forall>v \<in> snd ` set d. v \<noteq> [])"

definition named_functions :: "(token \<times> string Function) list \<Rightarrow> bool" where
  "named_functions fns =
     (\<forall>fr \<in> snd ` set fns. nonempty_values (args fr) \<and> nonempty_values (variables fr))"

definition named_tables ::
  "(token option \<times> string Struct) list \<Rightarrow> (token \<times> string) list \<Rightarrow> (token \<times> string) list
     \<Rightarrow> bool" where
  "named_tables ir flds methods =
     ((\<forall>st \<in> snd ` set ir. named_functions (functions' st))
      \<and> nonempty_values flds \<and> nonempty_values methods)"

text \<open>
  A struct table is a dictionary of dictionaries: its keys are distinct, the function
  names of each struct are distinct, and the top level is one of its keys.
\<close>

definition wf_info :: "(token option \<times> 'v Struct) list \<Rightarrow> bool" where
  "wf_info info =
     (distinct (map fst info) \<and> (\<forall>st \<in> snd ` set info. distinct (map fst (functions' st)))
      \<and> has_key info None)"

text \<open>
  The state of the generator after \<open>k\<close> fresh names: \<open>counter\<close> is the code point of the
  letter at position \<open>k mod 52\<close> and \<open>resets\<close> is \<open>k div 52\<close>.
\<close>

definition letter_code :: "nat \<Rightarrow> nat" where
  "letter_code m = (if m < 26 then 65 + m else 71 + m)"

definition namer_at :: "nat \<Rightarrow> namer \<Rightarrow> bool" where
  "namer_at k g = (counter g = letter_code (k mod 52) \<and> resets g = k div 52)"

section \<open>Tokenizer: nothing is lost\<close>

lemma concat_re_split: "concat (re_split cur s) = cur @ s"
  by (induction s arbitrary: cur) auto

lemma concat_filter_nonempty: "concat (filter (\<lambda>t. t \<noteq> []) xs) = concat xs"
  by (induction xs) auto

text \<open>
  C1. For every input string, the tokens of \<open>fetch_tokens\<close>, concatenated in order, are
  the input: no character is lost, duplicated or reordered.
\<close>

theorem fetch_tokens_concat: "concat (fetch_tokens s) = s"
  by (simp add: fetch_tokens_def concat_filter_nonempty concat_re_split)

section \<open>Grouper: unterminated and terminated literals\<close>

lemma find_end_None_iff:
  "find_end toks end_m lo = None \<longleftrightarrow>
     (\<forall>p. lo \<le> p \<and> p + length end_m \<le> length toks \<longrightarrow> take (length end_m) (drop p toks) \<noteq> end_m)"
proof -
  have "\<And>p. (lo \<le> p \<and> p < Suc (length toks) - length end_m)
          = (lo \<le> p \<and> p + length end_m \<le> length toks)"
    by auto
  then show ?thesis
    unfolding find_end_def find_None_iff by (simp only: set_upt atLeastLessThan_iff) metis
qed

lemma find_end_first:
  assumes "lo \<le> k" "k + length end_m \<le> length toks"
    and "take (length end_m) (drop k toks) = end_m"
    and "\<And>j. lo \<le> j \<Longrightarrow> j < k \<Longrightarrow> take (length end_m) (drop j toks) \<noteq> end_m"
  shows "find_end toks end_m lo = Some k"
proof -
  let ?xs = "[lo ..< Suc (length toks) - length end_m]"
  have len: "k - lo < length ?xs" using assms(1,2) by simp
  have nth: "?xs ! (k - lo) = k" using assms(1,2) by simp
  have "List.find (\<lambda>p. end_m = take (length end_m) (drop p toks)) ?xs = Some k"
    unfolding find_Some_iff
  proof (intro exI[of _ "k - lo"] conjI allI impI)
    show "k - lo < length ?xs" by (rule len)
    show "end_m = take (length end_m) (drop (?xs ! (k - lo)) toks)"
      using assms(3) nth by simp
    show "k = ?xs ! (k - lo)" using nth by simp
  next
    fix j assume "j < k - lo"
    then have "?xs ! j = lo + j" "lo + j < k" using len by auto
    then show "end_m \<noteq> take (length end_m) (drop (?xs ! j) toks)"
      using assms(4)[of "lo + j"] by auto
  qed
  then show ?thesis by (simp add: find_end_def)
qed

lemma group_loop_Nil: "group_loop start end_m ie isp [] = Some []"
  by (simp add: group_loop.simps)

lemma group_loop_single:
  assumes "toks \<noteq> []" "end_index start end_m ie toks = 1"
  shows "group_loop start end_m ie isp toks =
           map_option (\<lambda>rest. hd toks # rest) (group_loop start end_m ie isp (tl toks))"
proof -
  obtain t ts where toks: "toks = t # ts" using assms(1) by (cases toks) auto
  show ?thesis
    using assms(2) unfolding toks
    by (subst group_loop.simps) (simp add: grouped_tokens_def)
qed

lemma end_index_no_start:
  "\<not> (length start \<le> length toks \<and> start = take (length start) toks) \<Longrightarrow>
     end_index start end_m ie toks = 1"
  by (auto simp: end_index_def)

lemma end_index_no_end:
  "find_end toks end_m (length start) = None \<Longrightarrow> end_index start end_m ie toks = 1"
  by (simp add: end_index_def)

lemma group_loop_skip:
  assumes "q \<notin> set pre"
  shows "group_loop [q] [q] ie isp (pre @ rest) =
           map_option (\<lambda>r. pre @ r) (group_loop [q] [q] ie isp rest)"
  using assms
proof (induction pre)
  case Nil
  show ?case by (simp add: option.map_ident)
next
  case (Cons p pre)
  have "end_index [q] [q] ie ((p # pre) @ rest) = 1"
    using Cons.prems by (intro end_index_no_start) auto
  then have "group_loop [q] [q] ie isp ((p # pre) @ rest) =
      map_option (\<lambda>r. p # r) (group_loop [q] [q] ie isp (pre @ rest))"
    using group_loop_single[of "(p # pre) @ rest" "[q]" "[q]" ie isp] by simp
  also have "\<dots> = map_option (\<lambda>r. (p # pre) @ r) (group_loop [q] [q] ie isp rest)"
    using Cons by (simp add: option.map_comp comp_def)
  finally show ?case .
qed

lemma group_loop_no_marker:
  "q \<notin> set toks \<Longrightarrow> group_loop [q] [q] ie isp toks = Some toks"
  using group_loop_skip[of q toks ie isp "[]"] by (simp add: group_loop_Nil)

lemma end_index_literal:
  assumes "q \<notin> set mid"
  shows "end_index [q] [q] True (q # mid @ q # post) = length mid + 2"
proof -
  have "find_end (q # mid @ q # post) [q] 1 = Some (Suc (length mid))"
  proof (rule find_end_first)
    fix j assume j: "1 \<le> j" "j < Suc (length mid)"
    then obtain i where i: "j = Suc i" "i < length mid" by (cases j) auto
    then have "take 1 (drop j (q # mid @ q # post)) = [mid ! i]"
      by (simp add: take_Suc_conv_app_nth drop_append hd_drop_conv_nth take_Suc)
    moreover have "mid ! i \<noteq> q" using assms i by auto
    ultimately show "take (length [q]) (drop j (q # mid @ q # post)) \<noteq> [q]" by simp
  qed simp_all
  then show ?thesis by (simp add: end_index_def)
qed

lemma group_loop_literal:
  assumes "q \<notin> set mid"
  shows "group_loop [q] [q] True True (q # mid @ q # post) =
           map_option (\<lambda>r. concat (q # mid @ [q]) # r) (group_loop [q] [q] True True post)"
  by (subst group_loop.simps) (simp add: end_index_literal[OF assms] grouped_tokens_def)

text \<open>
  C9. When the start marker stands at the scan position and no occurrence of the end
  marker follows before the input is exhausted, the grouper emits the token at the scan
  position alone, as it is (for a one-token marker such as a quote this is the start
  marker itself), and goes on scanning from the next token. When exactly one terminated
  quoted literal is present, the tokens from the opening quote to the closing quote
  inclusive become exactly one merged token, and every other token stays as it is.
\<close>

theorem group_tokens_literal:
  "(start \<noteq> [] \<and> prefix start toks
      \<and> (\<forall>p. length start \<le> p \<and> p + length end_m \<le> length toks
              \<longrightarrow> take (length end_m) (drop p toks) \<noteq> end_m)
    \<longrightarrow> group_loop start end_m include_end include_space toks =
          map_option (\<lambda>rest. hd toks # rest)
            (group_loop start end_m include_end include_space (tl toks)))
   \<and> (q \<notin> set pre \<and> q \<notin> set mid \<and> q \<notin> set post
    \<longrightarrow> group_tokens (pre @ [q] @ mid @ [q] @ post) [q] [q] True True =
          Some (pre @ [concat ([q] @ mid @ [q])] @ post))"
proof (intro conjI impI)
  assume a: "start \<noteq> [] \<and> prefix start toks
      \<and> (\<forall>p. length start \<le> p \<and> p + length end_m \<le> length toks
              \<longrightarrow> take (length end_m) (drop p toks) \<noteq> end_m)"
  then have "toks \<noteq> []" by (auto simp: prefix_def)
  moreover have "end_index start end_m include_end toks = 1"
    using a by (intro end_index_no_end) (simp add: find_end_None_iff)
  ultimately show "group_loop start end_m include_end include_space toks =
          map_option (\<lambda>rest. hd toks # rest)
            (group_loop start end_m include_end include_space (tl toks))"
    by (rule group_loop_single)
next
  assume a: "q \<notin> set pre \<and> q \<notin> set mid \<and> q \<notin> set post"
  then show "group_tokens (pre @ [q] @ mid @ [q] @ post) [q] [q] True True =
          Some (pre @ [concat ([q] @ mid @ [q])] @ post)"
    using group_loop_skip[of q pre True True "q # mid @ q # post"]
      group_loop_literal[of q mid post] group_loop_no_marker[of q post True True]
    by (simp add: group_tokens_def)
qed

theorem group_tokens_literal_witness:
  "group_loop [[CHR 0x22]] [[CHR 0x22]] True True [[CHR 0x22], ''a''] =
     map_option (\<lambda>rest. [CHR 0x22] # rest)
       (group_loop [[CHR 0x22]] [[CHR 0x22]] True True [''a''])
   \<and> group_tokens [''x'', [CHR 0x22], ''a'', '' '', ''b'', [CHR 0x22], '';'']
        [[CHR 0x22]] [[CHR 0x22]] True True =
      Some [''x'', [CHR 0x22, CHR ''a'', CHR '' '', CHR ''b'', CHR 0x22], '';'']"
proof -
  let ?q = "[CHR 0x22]"
  have no_end: "\<forall>p. length [?q] \<le> p \<and> p + length [?q] \<le> length [?q, ''a'']
                  \<longrightarrow> take (length [?q]) (drop p [?q, ''a'']) \<noteq> [?q]"
  proof (intro allI impI)
    fix p assume "length [?q] \<le> p \<and> p + length [?q] \<le> length [?q, ''a'']"
    then have "p = 1" by simp
    then show "take (length [?q]) (drop p [?q, ''a'']) \<noteq> [?q]" by simp
  qed
  have pre: "[?q] \<noteq> [] \<and> prefix [?q] [?q, ''a'']" by simp
  have unterminated: "group_loop [?q] [?q] True True [?q, ''a''] =
      map_option (\<lambda>rest. hd [?q, ''a''] # rest) (group_loop [?q] [?q] True True (tl [?q, ''a'']))"
    using group_tokens_literal[of "[?q]" "[?q, ''a'']" "[?q]" True True ?q "[]" "[]" "[]"]
      pre no_end by blast
  have absent: "?q \<notin> set [''x''] \<and> ?q \<notin> set [''a'', '' '', ''b''] \<and> ?q \<notin> set ['';'']"
    by simp
  have terminated: "group_tokens ([''x''] @ [?q] @ [''a'', '' '', ''b''] @ [?q] @ ['';''])
        [?q] [?q] True True =
      Some ([''x''] @ [concat ([?q] @ [''a'', '' '', ''b''] @ [?q])] @ ['';''])"
    using group_tokens_literal[of "[?q]" "[?q, ''a'']" "[?q]" True True ?q
        "[''x'']" "[''a'', '' '', ''b'']" "['';'']"] absent by blast
  from unterminated terminated show ?thesis by simp
qed

section \<open>The name generator\<close>

lemma alphabet_length: "length alphabet = 52"
  by (simp add: alphabet_def)

lemma alphabet_distinct: "distinct alphabet"
  by (simp add: alphabet_def)

lemma alphabet_nth: "m < 52 \<Longrightarrow> alphabet ! m = char_of (letter_code m)"
proof -
  have "\<forall>m \<in> set [0..<52]. alphabet ! m = char_of (letter_code m)"
    by code_simp
  then show "m < 52 \<Longrightarrow> alphabet ! m = char_of (letter_code m)" by simp
qed

lemma alphabet_isalpha: "m < 52 \<Longrightarrow> isalpha (alphabet ! m)"
  by (simp add: alphabet_nth isalpha_def letter_code_def)

lemma pos_in_nth: "distinct xs \<Longrightarrow> i < length xs \<Longrightarrow> pos_in xs (xs ! i) = Some i"
proof (induction xs arbitrary: i)
  case Nil
  then show ?case by simp
next
  case (Cons x xs)
  show ?case
  proof (cases i)
    case 0
    then show ?thesis by simp
  next
    case (Suc j)
    with Cons.prems have "xs ! j \<noteq> x" "j < length xs" by auto
    with Cons Suc show ?thesis by auto
  qed
qed

lemma letter_pos_alphabet: "m < 52 \<Longrightarrow> letter_pos (alphabet ! m) = Some m"
  by (simp add: letter_pos_def pos_in_nth alphabet_distinct alphabet_length)
lemma letter_code_Suc:
  "m < 52 \<Longrightarrow> letter_code (Suc m mod 52) =
     (if letter_code m = 90 then 97 else if letter_code m = 122 then 65 else letter_code m + 1)"
  by (auto simp: letter_code_def mod_Suc)

lemma letter_code_range: "m < 52 \<Longrightarrow> 65 \<le> letter_code m \<and> letter_code m \<le> 122"
  by (auto simp: letter_code_def)

lemma letter_code_last: "m < 52 \<Longrightarrow> (letter_code m = 122) = (m = 51)"
  by (auto simp: letter_code_def)

lemma rank_code_Suc:
  "rank_code (Suc k) = replicate (k div 52 + 1) (char_of (letter_code (k mod 52)))"
  by (simp add: rank_code_def alphabet_nth)

text \<open>A fresh token gets the code of the next rank, and the generator moves on by one.\<close>

lemma generate_name_fresh:
  assumes "names g t = None" "namer_at k g"
  shows "\<exists>g1. generate_name t g = (rank_code (Suc k), g1)
           \<and> names g1 = (names g)(t \<mapsto> rank_code (Suc k)) \<and> namer_at (Suc k) g1"
proof -
  let ?m = "k mod 52"
  have m: "?m < 52" by simp
  have c: "counter g = letter_code ?m" and r: "resets g = k div 52"
    using assms(2) by (simp_all add: namer_at_def)
  have next_mod: "Suc k mod 52 = (if ?m = 51 then 0 else Suc ?m)"
    by (simp add: mod_Suc)
  have next_div: "Suc k div 52 = (if ?m = 51 then Suc (k div 52) else k div 52)"
    by (simp add: div_Suc mod_Suc)
  show ?thesis
  proof (cases "?m = 51")
    case True
    then have "letter_code ?m = 122" by (simp add: letter_code_def)
    with True c r assms(1) next_mod next_div show ?thesis
      by (simp add: generate_name_def Let_def rank_code_Suc namer_at_def letter_code_def)
  next
    case False
    then have ne: "letter_code ?m \<noteq> 122" using letter_code_last[OF m] by simp
    have le: "letter_code ?m \<le> 122" using letter_code_range[OF m] by simp
    show ?thesis
    proof (cases "letter_code ?m = 90")
      case True
      then have "?m = 25" by (auto simp: letter_code_def split: if_splits)
      with True c r assms(1) next_mod next_div show ?thesis
        by (simp add: generate_name_def Let_def rank_code_Suc namer_at_def letter_code_def)
    next
      case False
      have "letter_code (Suc ?m) = letter_code ?m + 1"
        using False \<open>?m \<noteq> 51\<close> by (auto simp: letter_code_def)
      with False ne le c r assms(1) next_mod next_div \<open>?m \<noteq> 51\<close> show ?thesis
        by (simp add: generate_name_def Let_def rank_code_Suc namer_at_def)
    qed
  qed
qed

lemma generate_name_known:
  "names g t = Some nm \<Longrightarrow> generate_name t g = (nm, g)"
  by (simp add: generate_name_def)


lemma assign_step_known: "names g t = Some nm \<Longrightarrow> assign_step t g = g"
proof -
  assume a: "names g t = Some nm"
  then have "(names g)(t \<mapsto> nm) = names g" by (rule map_upd_triv)
  with a show ?thesis by (simp add: assign_step_def generate_name_known)
qed

lemma assign_step_fresh:
  assumes "names g t = None" "namer_at k g"
  shows "names (assign_step t g) = (names g)(t \<mapsto> rank_code (Suc k))
         \<and> namer_at (Suc k) (assign_step t g)"
proof -
  obtain g1 where g1: "generate_name t g = (rank_code (Suc k), g1)"
    "names g1 = (names g)(t \<mapsto> rank_code (Suc k))" "namer_at (Suc k) g1"
    using generate_name_fresh[OF assms] by blast
  then show ?thesis by (simp add: assign_step_def namer_at_def)
qed

text \<open>An entry of \<open>names\<close>, once there, is never changed.\<close>

lemma assign_names_keeps:
  "names g t = Some nm \<Longrightarrow> namer_at k g \<Longrightarrow> names (fold assign_step ks g) t = Some nm"
proof (induction ks arbitrary: g k)
  case Nil
  then show ?case by simp
next
  case (Cons x ks)
  show ?case
  proof (cases "names g x")
    case None
    then have "x \<noteq> t" using Cons.prems(1) by auto
    with assign_step_fresh[OF None Cons.prems(2)] Cons.prems(1)
    have "names (assign_step x g) t = Some nm" "namer_at (Suc k) (assign_step x g)" by simp_all
    then show ?thesis using Cons.IH by simp
  next
    case (Some c)
    then show ?thesis using Cons assign_step_known by simp
  qed
qed

text \<open>
  A fresh key gets the code whose rank is one more than the number of fresh keys
  before it.
\<close>

lemma assign_names_rank:
  assumes "distinct (xs @ t # ys)" "namer_at k g" "names g t = None"
  shows "names (fold assign_step (xs @ t # ys) g) t =
           Some (rank_code (Suc (k + length (filter (\<lambda>u. names g u = None) xs))))"
  using assms
proof (induction xs arbitrary: g k)
  case Nil
  have "names (assign_step t g) t = Some (rank_code (Suc k))"
    "namer_at (Suc k) (assign_step t g)"
    using assign_step_fresh[OF Nil.prems(3) Nil.prems(2)] by simp_all
  then show ?case using assign_names_keeps by simp
next
  case (Cons x xs)
  have d: "distinct (xs @ t # ys)" "x \<noteq> t" "x \<notin> set xs" using Cons.prems(1) by auto
  show ?case
  proof (cases "names g x")
    case None
    have st: "names (assign_step x g) = (names g)(x \<mapsto> rank_code (Suc k))"
      "namer_at (Suc k) (assign_step x g)"
      using assign_step_fresh[OF None Cons.prems(2)] by simp_all
    have t: "names (assign_step x g) t = None" using st(1) d(2) Cons.prems(3) by simp
    have "filter (\<lambda>u. names (assign_step x g) u = None) xs = filter (\<lambda>u. names g u = None) xs"
      using d(3) st(1) by (intro filter_cong) auto
    then show ?thesis using Cons.IH[OF d(1) st(2) t] None by simp
  next
    case (Some c)
    then have "assign_step x g = g" by (rule assign_step_known)
    then show ?thesis using Cons.IH[OF d(1) Cons.prems(2) Cons.prems(3)] Some by simp
  qed
qed

lemma fold_keyword_names:
  "names (fold (\<lambda>kw g. g\<lparr>names := (names g)(kw \<mapsto> kw)\<rparr>) kws g) t =
     (if t \<in> set kws then Some t else names g t)"
  by (induction kws arbitrary: g) auto

lemma fold_keyword_counter:
  "counter (fold (\<lambda>kw g. g\<lparr>names := (names g)(kw \<mapsto> kw)\<rparr>) kws g) = counter g
   \<and> resets (fold (\<lambda>kw g. g\<lparr>names := (names g)(kw \<mapsto> kw)\<rparr>) kws g) = resets g"
  by (induction kws arbitrary: g) auto

lemma true_false_not_keywords: "''true'' \<notin> set KEYWORDS \<and> ''false'' \<notin> set KEYWORDS"
  by (simp add: KEYWORDS_def TYPES_def)

lemma fixed_names_lookup:
  "names (fixed_names namer_init) t =
     (if t \<in> set KEYWORDS then Some t
      else if t = ''true'' then Some ''1''
      else if t = ''false'' then Some ''0'' else None)"
  by (simp add: fixed_names_def fold_keyword_names namer_init_def)

lemma fixed_names_at: "namer_at 0 (fixed_names namer_init)"
  by (simp add: namer_at_def fixed_names_def fold_keyword_counter namer_init_def letter_code_def)

section \<open>The frequency table\<close>

lemma sort_dict_set: "set (sort_dict d) = set d"
  by (simp add: sort_dict_def)

lemma sort_dict_distinct: "distinct (map fst (sort_dict d)) = distinct (map fst d)"
  by (simp add: distinct_map sort_dict_def)

lemma sort_dict_map_of:
  "distinct (map fst d) \<Longrightarrow> map_of (sort_dict d) = map_of d"
  by (intro map_of_inject_set[THEN iffD2]) (simp_all add: sort_dict_distinct sort_dict_set)

text \<open>In the sorted table, an item of greater count stands before one of smaller count.\<close>

lemma sort_dict_order:
  assumes "sort_dict d = xs @ (a, ca) # ys" "(b, cb) \<in> set xs"
  shows "ca \<le> cb"
proof -
  have "sorted (map (\<lambda>item. - snd item) (sort_dict d))"
    by (simp add: sort_dict_def)
  then have "sorted (map (\<lambda>item. - snd item) xs @ (- ca) # map (\<lambda>item. - snd item) ys)"
    using assms(1) by simp
  then have "\<forall>x \<in> set (map (\<lambda>item. - snd item) xs). x \<le> - ca"
    by (simp add: sorted_append)
  then have "- cb \<le> - ca" using assms(2) by force
  then show ?thesis by simp
qed

lemma count_fold_distinct:
  "distinct (map fst freq) \<Longrightarrow> distinct (map fst (fold count_step tokens freq))"
  by (induction tokens arbitrary: freq) (auto simp: count_step_def distinct_update)

lemma count_fold_keys:
  "fst ` set (fold count_step tokens freq) = fst ` set freq \<union> {t \<in> set tokens. renamable t}"
  by (induction tokens arbitrary: freq) (auto simp: count_step_def dom_update)

lemma count_fold_map_of:
  "renamable t \<Longrightarrow>
   map_of (fold count_step tokens freq) t =
     (if t \<in> set tokens \<or> map_of freq t \<noteq> None
      then Some ((case map_of freq t of Some c \<Rightarrow> c | None \<Rightarrow> 0) + int (count_list tokens t))
      else None)"
proof (induction tokens arbitrary: freq)
  case Nil
  then show ?case by (auto split: option.splits)
next
  case (Cons x tokens)
  show ?case
  proof (cases "x = t")
    case True
    then show ?thesis using Cons
      by (simp add: count_step_def update_conv' split: option.splits)
  next
    case False
    then show ?thesis using Cons
      by (cases "renamable x") (simp_all add: count_step_def update_conv')
  qed
qed

lemma freq_keys_distinct: "distinct (map fst (get_frequencies tokens))"
  by (simp add: get_frequencies_def sort_dict_distinct count_fold_distinct)

lemma freq_keys_set: "set (map fst (get_frequencies tokens)) = {t \<in> set tokens. renamable t}"
  using count_fold_keys[of tokens "[]"] by (simp add: get_frequencies_def sort_dict_set)

lemma freq_count:
  "renamable t \<Longrightarrow> t \<in> set tokens \<Longrightarrow>
     map_of (get_frequencies tokens) t = Some (int (count_list tokens t))"
  by (simp add: get_frequencies_def sort_dict_map_of count_fold_distinct count_fold_map_of)

section \<open>The final names\<close>

lemma final_names_fixed:
  "names (fixed_names namer_init) t = Some nm \<Longrightarrow> names (final_namer tokens) t = Some nm"
  using assign_names_keeps[OF _ fixed_names_at] by (simp add: final_namer_def assign_names_def)

lemma final_names_keyword: "t \<in> set KEYWORDS \<Longrightarrow> names (final_namer tokens) t = Some t"
  by (rule final_names_fixed) (simp add: fixed_names_lookup)

lemma final_names_true: "names (final_namer tokens) ''true'' = Some ''1''"
  by (rule final_names_fixed) (simp add: fixed_names_lookup true_false_not_keywords)

lemma final_names_false: "names (final_namer tokens) ''false'' = Some ''0''"
  by (rule final_names_fixed) (simp add: fixed_names_lookup true_false_not_keywords)

lemma fresh_iff:
  "renamable t \<Longrightarrow>
     (names (fixed_names namer_init) t = None) = (t \<noteq> ''true'' \<and> t \<noteq> ''false'')"
  by (simp add: fixed_names_lookup renamable_def is_keyword_def)

lemma final_names_rank:
  assumes "map fst (get_frequencies tokens) = xs @ t # ys"
    and "names (fixed_names namer_init) t = None"
  shows "names (final_namer tokens) t =
           Some (rank_code (Suc (length (filter (\<lambda>u. names (fixed_names namer_init) u = None) xs))))"
proof -
  have "distinct (xs @ t # ys)" using freq_keys_distinct[of tokens] assms(1) by simp
  from assign_names_rank[OF this fixed_names_at assms(2)] show ?thesis
    by (simp add: final_namer_def assign_names_def assms(1))
qed

lemma filter_nth_split:
  "i < length (filter P ks) \<Longrightarrow>
     \<exists>xs ys. ks = xs @ (filter P ks ! i) # ys \<and> length (filter P xs) = i"
proof (induction ks arbitrary: i)
  case Nil
  then show ?case by simp
next
  case (Cons k ks)
  show ?case
  proof (cases "P k")
    case True
    show ?thesis
    proof (cases i)
      case 0
      with True have "k # ks = [] @ (filter P (k # ks) ! i) # ks \<and> length (filter P []) = i"
        by simp
      then show ?thesis by blast
    next
      case (Suc j)
      with True Cons.prems have "j < length (filter P ks)" by simp
      from Cons.IH[OF this] obtain xs ys where
        "ks = xs @ (filter P ks ! j) # ys" "length (filter P xs) = j" by blast
      with True Suc
      have "k # ks = (k # xs) @ (filter P (k # ks) ! i) # ys \<and> length (filter P (k # xs)) = i"
        by simp
      then show ?thesis by blast
    qed
  next
    case False
    with Cons.prems have "i < length (filter P ks)" by simp
    from Cons.IH[OF this] obtain xs ys where
      "ks = xs @ (filter P ks ! i) # ys" "length (filter P xs) = i" by blast
    with False
    have "k # ks = (k # xs) @ (filter P (k # ks) ! i) # ys \<and> length (filter P (k # xs)) = i"
      by simp
    then show ?thesis by blast
  qed
qed

section \<open>The order of codes\<close>

lemma same_block_mod:
  fixes k1 k2 :: nat
  assumes "k1 < k2" "k1 div 52 = k2 div 52"
  shows "k1 mod 52 < k2 mod 52"
proof -
  have "k1 = 52 * (k1 div 52) + k1 mod 52" "k2 = 52 * (k2 div 52) + k2 mod 52" by simp_all
  with assms show ?thesis by linarith
qed

lemma lex_before_replicate:
  assumes "m1 < m2" "m2 < 52"
  shows "lex_before (replicate (Suc n) (alphabet ! m1)) (replicate (Suc n) (alphabet ! m2))"
  using assms by (simp add: letter_pos_alphabet)

lemma rank_code_earlier:
  assumes "1 \<le> r1" "r1 < r2"
  shows "earlier_code (rank_code r1) (rank_code r2)"
proof -
  let ?k1 = "r1 - 1" and ?k2 = "r2 - 1"
  have lt: "?k1 < ?k2" using assms by simp
  then have "?k1 div 52 \<le> ?k2 div 52" by (simp add: div_le_mono)
  then consider "?k1 div 52 < ?k2 div 52" | "?k1 div 52 = ?k2 div 52" by linarith
  then show ?thesis
  proof cases
    case 1
    then show ?thesis by (simp add: earlier_code_def rank_code_def)
  next
    case 2
    then have "?k1 mod 52 < ?k2 mod 52" using lt same_block_mod by blast
    moreover have "?k2 mod 52 < 52" by simp
    ultimately have "lex_before (replicate (Suc (?k1 div 52)) (alphabet ! (?k1 mod 52)))
        (replicate (Suc (?k1 div 52)) (alphabet ! (?k2 mod 52)))"
      by (rule lex_before_replicate)
    with 2 show ?thesis by (simp add: earlier_code_def rank_code_def)
  qed
qed

lemma lex_before_irrefl: "\<not> lex_before c c"
  by (induction c) (auto split: option.splits)

lemma rank_code_inj:
  assumes "1 \<le> r1" "1 \<le> r2" "rank_code r1 = rank_code r2"
  shows "r1 = r2"
proof (rule ccontr)
  assume "r1 \<noteq> r2"
  then consider "r1 < r2" | "r2 < r1" by linarith
  then have "earlier_code (rank_code r1) (rank_code r1)"
    using rank_code_earlier assms by cases metis+
  then show False by (simp add: earlier_code_def lex_before_irrefl)
qed

lemma rank_code_name:
  assumes "1 \<le> r"
  shows "rank_code r \<noteq> [] \<and> is_name (rank_code r) \<and> rank_code r \<noteq> ''1'' \<and> rank_code r \<noteq> ''0''"
proof -
  have "isalpha (alphabet ! ((r - 1) mod 52))" by (simp add: alphabet_isalpha)
  moreover have "rank_code r = (alphabet ! ((r - 1) mod 52)) # replicate ((r - 1) div 52) (alphabet ! ((r - 1) mod 52))"
    by (simp add: rank_code_def)
  ultimately show ?thesis by (auto simp: is_name_def isalpha_def)
qed

section \<open>The code table\<close>

lemma final_names_renamable:
  assumes "t \<in> set tokens" "renamable t"
  shows "(t = ''true'' \<and> names (final_namer tokens) t = Some ''1'')
       \<or> (t = ''false'' \<and> names (final_namer tokens) t = Some ''0'')
       \<or> (t \<noteq> ''true'' \<and> t \<noteq> ''false''
          \<and> (\<exists>r. 1 \<le> r \<and> names (final_namer tokens) t = Some (rank_code r)))"
proof (cases "t = ''true'' \<or> t = ''false''")
  case True
  then show ?thesis using final_names_true final_names_false by auto
next
  case False
  then have fresh: "names (fixed_names namer_init) t = None"
    using fresh_iff[OF assms(2)] by simp
  have "t \<in> set (map fst (get_frequencies tokens))"
    using assms by (simp only: freq_keys_set) simp
  then obtain xs ys where "map fst (get_frequencies tokens) = xs @ t # ys"
    by (auto dest: split_list)
  from final_names_rank[OF this fresh] False show ?thesis by auto
qed

lemma final_names_distinct:
  assumes "a \<in> set tokens" "renamable a" "b \<in> set tokens" "renamable b" "a \<noteq> b"
  shows "names (final_namer tokens) a \<noteq> names (final_namer tokens) b"
proof -
  let ?P = "\<lambda>u. names (fixed_names namer_init) u = None"
  let ?ks = "map fst (get_frequencies tokens)"
  have keys: "a \<in> set ?ks" "b \<in> set ?ks"
    using assms by (simp_all only: freq_keys_set) simp_all
  have ordered: "names (final_namer tokens) x \<noteq> names (final_namer tokens) y"
    if split: "?ks = xs @ x # ys @ y # zs" and x: "?P x" and y: "?P y" for x y xs ys zs
  proof -
    have "names (final_namer tokens) x = Some (rank_code (Suc (length (filter ?P xs))))"
      using final_names_rank[of tokens xs x "ys @ y # zs"] split x by simp
    moreover have "names (final_namer tokens) y =
        Some (rank_code (Suc (length (filter ?P (xs @ x # ys)))))"
      using final_names_rank[of tokens "xs @ x # ys" y zs] split y by simp
    moreover have "Suc (length (filter ?P xs)) \<noteq> Suc (length (filter ?P (xs @ x # ys)))"
      using x by simp
    ultimately show ?thesis using rank_code_inj by fastforce
  qed
  show ?thesis
  proof (cases "?P a \<and> ?P b")
    case True
    obtain xs ys where s: "?ks = xs @ a # ys" using keys(1) by (auto dest: split_list)
    then have "b \<in> set xs \<or> b \<in> set ys" using keys(2) assms(5) by auto
    then show ?thesis
    proof
      assume "b \<in> set xs"
      then obtain us vs where "xs = us @ b # vs" by (auto dest: split_list)
      with s have "?ks = us @ b # vs @ a # ys" by simp
      from ordered[OF this] True show ?thesis by metis
    next
      assume "b \<in> set ys"
      then obtain us vs where "ys = us @ b # vs" by (auto dest: split_list)
      with s have "?ks = xs @ a # us @ b # vs" by simp
      from ordered[OF this] True show ?thesis by metis
    qed
  next
    case False
    have ca: "(a = ''true'' \<and> names (final_namer tokens) a = Some ''1'')
       \<or> (a = ''false'' \<and> names (final_namer tokens) a = Some ''0'')
       \<or> (a \<noteq> ''true'' \<and> a \<noteq> ''false''
          \<and> (\<exists>r. 1 \<le> r \<and> names (final_namer tokens) a = Some (rank_code r)))"
      using final_names_renamable[OF assms(1,2)] .
    have cb: "(b = ''true'' \<and> names (final_namer tokens) b = Some ''1'')
       \<or> (b = ''false'' \<and> names (final_namer tokens) b = Some ''0'')
       \<or> (b \<noteq> ''true'' \<and> b \<noteq> ''false''
          \<and> (\<exists>r. 1 \<le> r \<and> names (final_namer tokens) b = Some (rank_code r)))"
      using final_names_renamable[OF assms(3,4)] .
    have "a = ''true'' \<or> a = ''false'' \<or> b = ''true'' \<or> b = ''false''"
      using False fresh_iff[OF assms(2)] fresh_iff[OF assms(4)] by auto
    with ca cb assms(5) show ?thesis using rank_code_name by fastforce
  qed
qed

text \<open>
  C2. For any token stream, the final code table gives the distinct renamable tokens of
  the stream pairwise distinct codes; a renamable token of the stream has a code, and
  asking \<open>generate_name\<close> for it again returns the same code and leaves the table as it
  is; and the key of rank \<open>r\<close> (1-based) among the keys with a freshly generated code has
  the letter at position \<open>(r - 1) mod 52\<close> of A..Z a..z, repeated \<open>1 + (r - 1) div 52\<close>
  times.
\<close>

theorem final_code_table:
  "inj_on (names (final_namer tokens)) {t \<in> set tokens. renamable t}
   \<and> (\<forall>t \<in> set tokens. renamable t \<longrightarrow>
        (\<exists>c. names (final_namer tokens) t = Some c
           \<and> generate_name t (final_namer tokens) = (c, final_namer tokens)))
   \<and> (\<forall>r. 1 \<le> r \<and> r \<le> length (fresh_keys tokens) \<longrightarrow>
        names (final_namer tokens) (fresh_keys tokens ! (r - 1)) = Some (rank_code r))"
proof (intro conjI ballI allI impI)
  show "inj_on (names (final_namer tokens)) {t \<in> set tokens. renamable t}"
    using final_names_distinct by (auto simp: inj_on_def)
next
  fix t assume "t \<in> set tokens" "renamable t"
  then obtain c where "names (final_namer tokens) t = Some c"
    using final_names_renamable by blast
  then show "\<exists>c. names (final_namer tokens) t = Some c
           \<and> generate_name t (final_namer tokens) = (c, final_namer tokens)"
    by (simp add: generate_name_known)
next
  fix r assume r: "1 \<le> r \<and> r \<le> length (fresh_keys tokens)"
  let ?P = "\<lambda>u. names (fixed_names namer_init) u = None"
  let ?ks = "map fst (get_frequencies tokens)"
  have i: "r - 1 < length (filter ?P ?ks)" using r unfolding fresh_keys_def by arith
  from filter_nth_split[OF this] obtain xs ys where
    split: "?ks = xs @ (filter ?P ?ks ! (r - 1)) # ys" and len: "length (filter ?P xs) = r - 1"
    by blast
  have "filter ?P ?ks ! (r - 1) \<in> set (filter ?P ?ks)" using i by (rule nth_mem)
  then have "?P (filter ?P ?ks ! (r - 1))" by simp
  from final_names_rank[OF split this] len r
  show "names (final_namer tokens) (fresh_keys tokens ! (r - 1)) = Some (rank_code r)"
    by (simp add: fresh_keys_def)
qed

text \<open>
  C7. Of two renamable tokens of the IR stream with different occurrence counts, the one
  of greater count has the earlier-ranked code: strictly shorter, or of equal length and
  lexicographically earlier in the letter order. Renamable is read as the specification
  has it: a name that is no reserved keyword (\<open>renamable\<close>) and neither of the fixed
  literal spellings \<open>true\<close> and \<open>false\<close>.
\<close>

theorem frequent_code_earlier:
  assumes "a \<in> set tokens" "renamable a" "b \<in> set tokens" "renamable b"
    and "a \<noteq> ''true''" "a \<noteq> ''false''" "b \<noteq> ''true''" "b \<noteq> ''false''"
    and "count_list tokens b < count_list tokens a"
  shows "\<exists>c d. names (final_namer tokens) a = Some c \<and> names (final_namer tokens) b = Some d
           \<and> earlier_code c d"
proof -
  let ?P = "\<lambda>u. names (fixed_names namer_init) u = None"
  let ?f = "get_frequencies tokens"
  have Pa: "?P a" and Pb: "?P b"
    using fresh_iff[OF assms(2)] fresh_iff[OF assms(4)] assms(5-8) by simp_all
  have ia: "(a, int (count_list tokens a)) \<in> set ?f" and ib: "(b, int (count_list tokens b)) \<in> set ?f"
    using freq_count assms(1-4) by (auto dest: map_of_SomeD)
  obtain xs ys where s: "?f = xs @ (a, int (count_list tokens a)) # ys"
    using ia by (auto dest: split_list)
  have "(b, int (count_list tokens b)) \<notin> set xs"
    using sort_dict_order[of "fold count_step tokens []" xs a _ ys b] s assms(9)
    by (fastforce simp: get_frequencies_def)
  moreover have "a \<noteq> b" using assms(9) by auto
  ultimately have "(b, int (count_list tokens b)) \<in> set ys" using ib s by auto
  then obtain us vs where "ys = us @ (b, int (count_list tokens b)) # vs"
    by (auto dest: split_list)
  with s have k: "map fst ?f = map fst xs @ a # map fst us @ b # map fst vs" by simp
  have na: "names (final_namer tokens) a = Some (rank_code (Suc (length (filter ?P (map fst xs)))))"
    using final_names_rank[of tokens "map fst xs" a "map fst us @ b # map fst vs"] k Pa by simp
  have nb: "names (final_namer tokens) b =
      Some (rank_code (Suc (length (filter ?P (map fst xs @ a # map fst us)))))"
    using final_names_rank[of tokens "map fst xs @ a # map fst us" b "map fst vs"] k Pb by simp
  have "Suc (length (filter ?P (map fst xs))) < Suc (length (filter ?P (map fst xs @ a # map fst us)))"
    using Pa by simp
  then have "earlier_code (rank_code (Suc (length (filter ?P (map fst xs)))))
      (rank_code (Suc (length (filter ?P (map fst xs @ a # map fst us)))))"
    by (intro rank_code_earlier) simp_all
  with na nb show ?thesis by blast
qed

section \<open>The emission loop\<close>

lemma list_all2_exists: "\<forall>x \<in> set xs. \<exists>y. R x y \<Longrightarrow> \<exists>ys. list_all2 R xs ys"
proof (induction xs)
  case Nil
  then show ?case by simp
next
  case (Cons x xs)
  then obtain y ys where "R x y" "list_all2 R xs ys" by auto
  then have "list_all2 R (x # xs) (y # ys)" by simp
  then show ?case by blast
qed

lemma final_loop_interleave:
  "list_all2 (\<lambda>t m. mangle nms t = Inr m) toks outs \<Longrightarrow>
     final_loop nms prv toks = Inr (interleave prv toks outs)"
  by (induction toks outs arbitrary: prv rule: list_all2_induct) (simp_all add: bind_err_def)

text \<open>What the final table does to a token of the stream.\<close>

lemma mangle_final:
  assumes "t \<in> set tokens"
  shows "\<exists>m. mangle (names (final_namer tokens)) t = Inr m
           \<and> (t \<in> set KEYWORDS \<longrightarrow> m = t)
           \<and> (t = ''true'' \<longrightarrow> m = ''1'') \<and> (t = ''false'' \<longrightarrow> m = ''0'')
           \<and> (t \<noteq> [] \<longrightarrow> m \<noteq> [] \<and> merge_sensitive m = merge_sensitive t)"
proof (cases "renamable t")
  case False
  then have "mangle (names (final_namer tokens)) t = Inr t" by (simp add: mangle_def)
  moreover have "t \<noteq> ''true''" "t \<noteq> ''false''"
    using False by (auto simp: renamable_def is_keyword_def KEYWORDS_def TYPES_def is_name_def isalpha_def)
  ultimately show ?thesis by simp
next
  case True
  then have nk: "t \<notin> set KEYWORDS" and nm: "is_name t"
    by (simp_all add: renamable_def is_keyword_def)
  then have ms: "merge_sensitive t" by (cases t) (simp_all add: merge_sensitive_def is_name_def)
  have one: "merge_sensitive ''1''" and zero: "merge_sensitive ''0''"
    by (simp_all add: merge_sensitive_def isnumeric_def)
  from final_names_renamable[OF assms True] show ?thesis
  proof (elim disjE conjE exE)
    assume "t = ''true''" "names (final_namer tokens) t = Some ''1''"
    then show ?thesis using True nk ms one by (simp add: mangle_def)
  next
    assume "t = ''false''" "names (final_namer tokens) t = Some ''0''"
    then show ?thesis using True nk ms zero by (simp add: mangle_def)
  next
    fix r assume r: "t \<noteq> ''true''" "t \<noteq> ''false''" "1 \<le> r"
      "names (final_namer tokens) t = Some (rank_code r)"
    have "rank_code r \<noteq> []" "is_name (rank_code r)" using rank_code_name[OF r(3)] by simp_all
    then have "merge_sensitive (rank_code r)"
      by (cases "rank_code r") (simp_all add: merge_sensitive_def)
    with r True nk ms \<open>rank_code r \<noteq> []\<close> show ?thesis by (simp add: mangle_def)
  qed
qed

lemma needs_space_merge:
  "p \<noteq> [] \<Longrightarrow> t \<noteq> [] \<Longrightarrow>
     needs_space (Some p) t = (merge_sensitive p \<and> merge_sensitive t)"
  by (cases p; cases t)
    (simp_all add: needs_space_def attachable_tokens_def attach_eligible_def merge_sensitive_def)

lemma interleave_spaced:
  assumes "list_all2 (\<lambda>t m. t \<noteq> [] \<and> m \<noteq> [] \<and> merge_sensitive m = merge_sensitive t) toks outs"
    and "p \<noteq> []"
  shows "interleave None toks outs = spaced outs
       \<and> interleave (Some p) toks outs =
           (case outs of [] \<Rightarrow> []
            | m # _ \<Rightarrow> (if merge_sensitive p \<and> merge_sensitive m then ['' ''] else []) @ spaced outs)"
  using assms
proof (induction toks outs arbitrary: p rule: list_all2_induct)
  case Nil
  show ?case by simp
next
  case (Cons t toks m outs)
  have rest: "interleave (Some m) toks outs =
      (case outs of [] \<Rightarrow> []
       | m' # _ \<Rightarrow> (if merge_sensitive m \<and> merge_sensitive m' then ['' ''] else []) @ spaced outs)"
    using Cons.IH[of m] Cons.hyps by simp
  have sp: "m # interleave (Some m) toks outs = spaced (m # outs)"
    using rest by (cases outs) simp_all
  have "needs_space (Some p) t = (merge_sensitive p \<and> merge_sensitive m)"
    using needs_space_merge[of p t] Cons.prems Cons.hyps by simp
  moreover have "\<not> needs_space None t" by (simp add: needs_space_def)
  ultimately show ?case using sp by simp
qed

lemma final_stage_mangled:
  "\<exists>outs. list_all2 (\<lambda>t m. mangle (names (final_namer tokens)) t = Inr m) tokens outs
     \<and> final_stage tokens = Inr (interleave None tokens outs)"
proof -
  have "\<forall>t \<in> set tokens. \<exists>m. mangle (names (final_namer tokens)) t = Inr m"
    using mangle_final by blast
  then obtain outs where
    "list_all2 (\<lambda>t m. mangle (names (final_namer tokens)) t = Inr m) tokens outs"
    using list_all2_exists[of tokens "\<lambda>t m. mangle (names (final_namer tokens)) t = Inr m"]
    by blast
  then show ?thesis using final_loop_interleave by (auto simp: final_stage_def)
qed

text \<open>
  For a stream of non-empty tokens the final stage returns \<open>spaced outs\<close>, where \<open>outs\<close>
  are the emitted tokens, one for each token of the stream.
\<close>

lemma final_stage_spaced_nonempty:
  assumes "\<forall>t \<in> set tokens. t \<noteq> []"
  shows "\<exists>outs. list_all2 (\<lambda>t m. mangle (names (final_namer tokens)) t = Inr m) tokens outs
           \<and> final_stage tokens = Inr (spaced outs)"
proof -
  obtain outs where
    outs: "list_all2 (\<lambda>t m. mangle (names (final_namer tokens)) t = Inr m) tokens outs"
    and out: "final_stage tokens = Inr (interleave None tokens outs)"
    using final_stage_mangled by blast
  have "list_all2 (\<lambda>t m. t \<noteq> [] \<and> m \<noteq> [] \<and> merge_sensitive m = merge_sensitive t) tokens outs"
  proof (rule list_all2_all_nthI)
    show "length tokens = length outs" using outs by (rule list_all2_lengthD)
  next
    fix i assume i: "i < length tokens"
    then have mem: "tokens ! i \<in> set tokens" by simp
    have "mangle (names (final_namer tokens)) (tokens ! i) = Inr (outs ! i)"
      using outs i by (rule list_all2_nthD)
    with mangle_final[OF mem] assms mem
    show "tokens ! i \<noteq> [] \<and> outs ! i \<noteq> [] \<and> merge_sensitive (outs ! i) = merge_sensitive (tokens ! i)"
      by auto
  qed
  then have "interleave None tokens outs = spaced outs"
    using interleave_spaced[of tokens outs "''x''"] by simp
  with outs out show ?thesis by auto
qed

text \<open>
  C8, amended. For every IR token stream and at every position, the final stage emits a
  reserved keyword unchanged, the spelling \<open>true\<close> as \<open>1\<close> and the spelling \<open>false\<close> as \<open>0\<close>:
  \<open>outs\<close> are the emitted tokens, one for each token of the stream.
\<close>

theorem final_stage_keywords:
  "\<exists>outs. list_all2 (\<lambda>t m. mangle (names (final_namer tokens)) t = Inr m) tokens outs
     \<and> final_stage tokens = Inr (interleave None tokens outs)
     \<and> (\<forall>i < length tokens.
          (tokens ! i \<in> set KEYWORDS \<longrightarrow> outs ! i = tokens ! i)
          \<and> (tokens ! i = ''true'' \<longrightarrow> outs ! i = ''1'')
          \<and> (tokens ! i = ''false'' \<longrightarrow> outs ! i = ''0''))"
proof -
  obtain outs where
    outs: "list_all2 (\<lambda>t m. mangle (names (final_namer tokens)) t = Inr m) tokens outs"
    and out: "final_stage tokens = Inr (interleave None tokens outs)"
    using final_stage_mangled by blast
  have "(tokens ! i \<in> set KEYWORDS \<longrightarrow> outs ! i = tokens ! i)
          \<and> (tokens ! i = ''true'' \<longrightarrow> outs ! i = ''1'')
          \<and> (tokens ! i = ''false'' \<longrightarrow> outs ! i = ''0'')" if i: "i < length tokens" for i
  proof -
    have mem: "tokens ! i \<in> set tokens" using i by simp
    have "mangle (names (final_namer tokens)) (tokens ! i) = Inr (outs ! i)"
      using outs i by (rule list_all2_nthD)
    with mangle_final[OF mem] show ?thesis by auto
  qed
  with outs out show ?thesis by blast
qed

theorem final_code_table_witness:
  "names (final_namer [''foo'', ''bar'', ''foo'', ''true'', ''int'']) ''bar'' = Some ''B''
   \<and> generate_name ''foo'' (final_namer [''foo'', ''bar'', ''foo'', ''true'', ''int'']) =
       (''A'', final_namer [''foo'', ''bar'', ''foo'', ''true'', ''int''])
   \<and> names (final_namer [''foo'', ''bar'', ''foo'', ''true'', ''int'']) ''foo''
       \<noteq> names (final_namer [''foo'', ''bar'', ''foo'', ''true'', ''int'']) ''bar''"
proof -
  let ?T = "[''foo'', ''bar'', ''foo'', ''true'', ''int'']"
  note table = final_code_table[of ?T]
  have fresh: "fresh_keys ?T = [''foo'', ''bar'']" by code_simp
  have ren: "renamable ''foo''" "renamable ''bar''" by code_simp+
  have codes: "rank_code (Suc 0) = ''A''" "rank_code 2 = ''B''" by code_simp+
  have r1: "(1::nat) \<le> 1 \<and> 1 \<le> length (fresh_keys ?T)"
    and r2: "(1::nat) \<le> 2 \<and> 2 \<le> length (fresh_keys ?T)"
    by (simp_all add: fresh)
  from table r1 have "names (final_namer ?T) (fresh_keys ?T ! (1 - 1)) = Some (rank_code 1)"
    by blast
  then have foo: "names (final_namer ?T) ''foo'' = Some ''A''" by (simp add: fresh codes)
  from table r2 have "names (final_namer ?T) (fresh_keys ?T ! (2 - 1)) = Some (rank_code 2)"
    by blast
  then have bar: "names (final_namer ?T) ''bar'' = Some ''B''" by (simp add: fresh codes)
  have "''foo'' \<in> set ?T" by simp
  with table ren(1) obtain c where
    "names (final_namer ?T) ''foo'' = Some c"
    "generate_name ''foo'' (final_namer ?T) = (c, final_namer ?T)"
    by blast
  with foo have again: "generate_name ''foo'' (final_namer ?T) = (''A'', final_namer ?T)" by simp
  have "''foo'' \<in> {t \<in> set ?T. renamable t}" "''bar'' \<in> {t \<in> set ?T. renamable t}"
    using ren by simp_all
  with table have "names (final_namer ?T) ''foo'' \<noteq> names (final_namer ?T) ''bar''"
    by (auto dest: inj_onD)
  with bar again show ?thesis by simp
qed

theorem frequent_code_earlier_witness:
  "\<exists>c d. names (final_namer [''foo'', ''bar'', ''foo'']) ''foo'' = Some c
      \<and> names (final_namer [''foo'', ''bar'', ''foo'']) ''bar'' = Some d \<and> earlier_code c d"
proof -
  have ren: "renamable ''foo''" "renamable ''bar''" by code_simp+
  show ?thesis
    by (rule frequent_code_earlier[of "''foo''" "[''foo'', ''bar'', ''foo'']" "''bar''"])
      (simp_all add: ren)
qed

theorem final_stage_keywords_witness:
  "final_stage [''return'', ''true'', ''false''] = Inr [''return'', '' '', ''1'', '' '', ''0'']"
proof -
  let ?T = "[''return'', ''true'', ''false'']"
  obtain outs where
    len: "list_all2 (\<lambda>t m. mangle (names (final_namer ?T)) t = Inr m) ?T outs"
    and out: "final_stage ?T = Inr (interleave None ?T outs)"
    and fixed: "\<forall>i < length ?T.
          (?T ! i \<in> set KEYWORDS \<longrightarrow> outs ! i = ?T ! i)
          \<and> (?T ! i = ''true'' \<longrightarrow> outs ! i = ''1'')
          \<and> (?T ! i = ''false'' \<longrightarrow> outs ! i = ''0'')"
    using final_stage_keywords[of ?T] by blast
  have kw: "?T ! 0 \<in> set KEYWORDS" by (simp add: KEYWORDS_def TYPES_def)
  obtain a b c where abc: "outs = [a, b, c]"
    using len by (auto simp: list_all2_Cons1)
  have "outs ! 0 = ''return''" using fixed kw by force
  moreover have "outs ! 1 = ''1''" using fixed by force
  moreover have "outs ! 2 = ''0''" using fixed by force
  ultimately have "outs = [''return'', ''1'', ''0'']"
    by (simp add: abc)
  moreover have "interleave None ?T [''return'', ''1'', ''0''] = [''return'', '' '', ''1'', '' '', ''0'']"
    by code_simp
  ultimately show ?thesis using out by simp
qed

section \<open>The IR substitution\<close>

lemma dict_get_Inr: "dict_get d k = Inr v \<Longrightarrow> map_of d k = Some v"
  by (simp add: dict_get_def split: option.splits)

lemma dict_get_has_key: "has_key d k \<Longrightarrow> dict_get d k = Inr (the (map_of d k))"
  by (auto simp: dict_get_def has_key_def)

lemma ir_rename_order:
  assumes "ir_rename ir flds methods strct fn tok = Inr renamed"
  shows "renamed =
           lookup_order (scoped_table ir strct fn args) (map_of flds) (map_of methods)
             (scoped_table ir strct fn variables) tok"
proof (cases fn)
  case None
  then have "scoped_table ir strct fn args = Map.empty" "scoped_table ir strct fn variables = Map.empty"
    by (simp_all add: scoped_table_def get_function_def bind_err_def split: sum.splits)
  with assms None show ?thesis
    by (auto simp: ir_rename_def in_scoped_def bind_err_def lookup_order_def has_key_def
        dict_get_def split: if_splits option.splits)
next
  case (Some f)
  show ?thesis
  proof (cases "get_function ir strct fn")
    case (Inl e)
    with assms Some show ?thesis
      by (simp add: ir_rename_def in_scoped_def bind_err_def)
  next
    case (Inr fr)
    then have "scoped_table ir strct fn args = map_of (args fr)"
      "scoped_table ir strct fn variables = map_of (variables fr)"
      by (simp_all add: scoped_table_def)
    with assms Some Inr show ?thesis
      by (auto simp: ir_rename_def in_scoped_def scoped_get_def bind_err_def lookup_order_def
          has_key_def dict_get_def split: if_splits option.splits)
  qed
qed

text \<open>
  C5, amended. In the IR substitution pass, a step that does not raise replaces the token
  by the lookup order: the argument table of the active (struct, function) pair, then the
  global field table, then the global function table, then the local table of the active
  pair; a token that no table holds passes through unchanged.
\<close>

theorem to_ir_lookup_order:
  assumes "to_ir_step ir flds methods s tok = Inr s1"
  shows "new_tokens s1 = new_tokens s @
           [lookup_order (scoped_table ir (struct s1) (function' s1) args) (map_of flds)
              (map_of methods) (scoped_table ir (struct s1) (function' s1) variables) tok]"
proof -
  define s0 where
    "s0 = ir_enter_struct
            (exit_struct (ir_enter_function methods (ir_args (exit_function s tok) tok) tok) tok) tok"
  have nt: "new_tokens s0 = new_tokens s"
    by (simp add: s0_def ir_enter_struct_def exit_struct_def ir_enter_function_def ir_args_def
        exit_function_def Let_def)
  from assms obtain renamed where
    r: "ir_rename ir flds methods (struct s0) (function' s0) tok = Inr renamed"
    and s1: "s1 = s0\<lparr>prev := Some renamed, new_tokens := new_tokens s0 @ [renamed]\<rparr>"
    by (auto simp: to_ir_step_def Let_def s0_def bind_err_def split: sum.splits)
  from ir_rename_order[OF r] s1 nt show ?thesis by simp
qed

theorem to_ir_lookup_order_witness:
  "\<exists>s1. to_ir_step [] [(''x'', ''field0'')] [] to_ir_init ''x'' = Inr s1
        \<and> new_tokens s1 = [''field0'']"
proof -
  obtain s1 where s1: "to_ir_step [] [(''x'', ''field0'')] [] to_ir_init ''x'' = Inr s1"
    and scope: "struct s1 = None" "function' s1 = None"
    by (simp add: to_ir_step_def to_ir_init_def ir_enter_struct_def exit_struct_def
        ir_enter_function_def ir_args_def exit_function_def ir_rename_def in_scoped_def
        bind_err_def has_key_def dict_get_def)
  have "new_tokens s1 = [''field0'']"
    using to_ir_lookup_order[OF s1] scope
    by (simp add: to_ir_init_def lookup_order_def scoped_table_def get_function_def
        bind_err_def dict_get_def)
  with s1 show ?thesis by blast
qed

text \<open>
  C5 as stated fails: in \<open>struct S { int x; int f() { int x = 1; return x; } };\<close> the
  name \<open>x\<close> is in the local table of \<open>f\<close> (as \<open>var0\<close>) and in the global field table (as
  \<open>field0\<close>), and inside \<open>f\<close> it receives the field rename. The tables are those of
  \<open>get_ir_renames\<close> for the statistics of \<open>get_stats\<close>.
\<close>

theorem to_ir_lookup_counterexample:
  "bind_err
     (get_stats [''struct'', ''S'', ''{'', ''int'', ''x'', '';'', ''int'', ''f'', ''('', '')'',
                 ''{'', ''int'', ''x'', ''='', ''1'', '';'', ''return'', ''x'', '';'',
                 ''}'', ''}'', '';''])
     get_ir_renames =
     Inr ([(None, \<lparr>name = ''struct0'', fields' = [], functions' = [], top_lvl_used = []\<rparr>),
           (Some ''S'',
            \<lparr>name = ''struct1'', fields' = [(''x'', ''field0'')],
             functions' = [(''f'', \<lparr>args = [], variables = [(''x'', ''var0'')]\<rparr>)],
             top_lvl_used = []\<rparr>)],
          [(''x'', ''field0'')], [(''f'', ''func0'')])
   \<and> to_ir [''struct'', ''S'', ''{'', ''int'', ''x'', '';'', ''int'', ''f'', ''('', '')'',
             ''{'', ''int'', ''x'', ''='', ''1'', '';'', ''return'', ''x'', '';'',
             ''}'', ''}'', '';'']
        [(None, \<lparr>name = ''struct0'', fields' = [], functions' = [], top_lvl_used = []\<rparr>),
         (Some ''S'',
          \<lparr>name = ''struct1'', fields' = [(''x'', ''field0'')],
           functions' = [(''f'', \<lparr>args = [], variables = [(''x'', ''var0'')]\<rparr>)],
           top_lvl_used = []\<rparr>)]
        [(''x'', ''field0'')] [(''f'', ''func0'')] =
       Inr [''struct'', ''S'', ''{'', ''int'', ''field0'', '';'', ''int'', ''func0'', ''('', '')'',
            ''{'', ''int'', ''field0'', ''='', ''1'', '';'', ''return'', ''field0'', '';'',
            ''}'', ''}'', '';'']"
proof (rule conjI)
  show "bind_err
     (get_stats [''struct'', ''S'', ''{'', ''int'', ''x'', '';'', ''int'', ''f'', ''('', '')'',
                 ''{'', ''int'', ''x'', ''='', ''1'', '';'', ''return'', ''x'', '';'',
                 ''}'', ''}'', '';''])
     get_ir_renames =
     Inr ([(None, \<lparr>name = ''struct0'', fields' = [], functions' = [], top_lvl_used = []\<rparr>),
           (Some ''S'',
            \<lparr>name = ''struct1'', fields' = [(''x'', ''field0'')],
             functions' = [(''f'', \<lparr>args = [], variables = [(''x'', ''var0'')]\<rparr>)],
             top_lvl_used = []\<rparr>)],
          [(''x'', ''field0'')], [(''f'', ''func0'')])"
    by code_simp
next
  show "to_ir [''struct'', ''S'', ''{'', ''int'', ''x'', '';'', ''int'', ''f'', ''('', '')'',
             ''{'', ''int'', ''x'', ''='', ''1'', '';'', ''return'', ''x'', '';'',
             ''}'', ''}'', '';'']
        [(None, \<lparr>name = ''struct0'', fields' = [], functions' = [], top_lvl_used = []\<rparr>),
         (Some ''S'',
          \<lparr>name = ''struct1'', fields' = [(''x'', ''field0'')],
           functions' = [(''f'', \<lparr>args = [], variables = [(''x'', ''var0'')]\<rparr>)],
           top_lvl_used = []\<rparr>)]
        [(''x'', ''field0'')] [(''f'', ''func0'')] =
       Inr [''struct'', ''S'', ''{'', ''int'', ''field0'', '';'', ''int'', ''func0'', ''('', '')'',
            ''{'', ''int'', ''field0'', ''='', ''1'', '';'', ''return'', ''field0'', '';'',
            ''}'', ''}'', '';'']"
    by code_simp
qed

section \<open>The names of the top-level functions\<close>

lemma has_key_update: "has_key (AList.update k v d) g = (g = k \<or> has_key d g)"
  by (simp add: has_key_def update_conv')

lemma top_loop_other:
  "f \<notin> set fs \<Longrightarrow> map_of (top_loop fs used i j m) f = map_of m f"
  by (induction fs arbitrary: i j m) (auto simp: update_conv')

lemma top_loop_at:
  assumes "distinct (xs @ f # ys)"
  shows "map_of (top_loop (xs @ f # ys) used i j m) f =
     (if f \<in> set used
      then Some (''topfunc'' @ str (i + length (filter (\<lambda>g. g \<in> set used) xs)))
      else if has_key m f then map_of m f
      else Some (if f = ''main'' then ''main''
                 else ''func'' @ str (j + length (filter (\<lambda>g. g \<notin> set used \<and> \<not> has_key m g) xs))))"
  using assms
proof (induction xs arbitrary: i j m)
  case Nil
  then have "f \<notin> set ys" by simp
  then show ?case by (simp add: top_loop_other update_conv')
next
  case (Cons x xs)
  have d: "distinct (xs @ f # ys)" "x \<noteq> f" "x \<notin> set xs" using Cons.prems by auto
  have same: "filter (\<lambda>g. g \<notin> set used \<and> \<not> has_key (AList.update x v m) g) xs =
      filter (\<lambda>g. g \<notin> set used \<and> \<not> has_key m g) xs" for v
    using d(3) by (intro filter_cong) (auto simp: has_key_update)
  have keep: "has_key (AList.update x v m) f = has_key m f"
    "map_of (AList.update x v m) f = map_of m f" for v
    using d(2) by (auto simp: has_key_update update_conv')
  show ?case
  proof (cases "x \<in> set used")
    case True
    then show ?thesis
      using Cons.IH[OF d(1), of "i + 1" j "AList.update x (''topfunc'' @ str i) m"]
      by (simp add: same keep)
  next
    case False
    show ?thesis
    proof (cases "has_key m x")
      case True
      with False show ?thesis using Cons.IH[OF d(1), of i j m] by simp
    next
      case nk: False
      with False show ?thesis
        using Cons.IH[OF d(1), of i "j + 1"
            "AList.update x (if x = ''main'' then ''main'' else ''func'' @ str j) m"]
        by (simp add: same keep)
    qed
  qed
qed

text \<open>The dictionary \<open>methods\<close> and the set \<open>top_lvl_used\<close> after the loop over the structs.\<close>

lemma functions_fold:
  "fold (functions_step strct) items (irf, m) = (irf1, m1) \<Longrightarrow>
     (\<forall>g. has_key m1 g = (has_key m g \<or> (strct \<noteq> None \<and> g \<in> (fst \<circ> snd) ` set items)))
     \<and> ((\<forall>v \<in> snd ` set m. \<exists>x. v = ''func'' @ str x) \<longrightarrow>
          (\<forall>v \<in> snd ` set m1. \<exists>x. v = ''func'' @ str x))"
proof (induction items arbitrary: irf m)
  case Nil
  then show ?case by simp
next
  case (Cons item items)
  obtain x func fr where item: "item = (x, func, fr)" by (cases item) auto
  show ?case
  proof (cases "strct = None")
    case True
    have "functions_step strct item (irf, m) = (AList.update func (ir_function fr) irf, m)"
      using True by (simp add: functions_step_def item)
    with Cons.prems
    have "fold (functions_step strct) items (AList.update func (ir_function fr) irf, m) = (irf1, m1)"
      by simp
    from Cons.IH[OF this] True show ?thesis by simp
  next
    case False
    have "functions_step strct item (irf, m) =
        (AList.update func (ir_function fr) irf, AList.update func (''func'' @ str x) m)"
      using False by (simp add: functions_step_def item)
    with Cons.prems
    have "fold (functions_step strct) items
            (AList.update func (ir_function fr) irf, AList.update func (''func'' @ str x) m) =
          (irf1, m1)"
      by simp
    from Cons.IH[OF this] False item
    have keys: "\<forall>g. has_key m1 g = (has_key m g \<or> (strct \<noteq> None \<and> g \<in> (fst \<circ> snd) ` set (item # items)))"
      and vals: "(\<forall>v \<in> snd ` set (AList.update func (''func'' @ str x) m). \<exists>x. v = ''func'' @ str x) \<longrightarrow>
          (\<forall>v \<in> snd ` set m1. \<exists>x. v = ''func'' @ str x)"
      by (auto simp: has_key_update)
    have "snd ` set (AList.update func (''func'' @ str x) m) \<subseteq> insert (''func'' @ str x) (snd ` set m)"
      by (induction m) auto
    with vals have "(\<forall>v \<in> snd ` set m. \<exists>x. v = ''func'' @ str x) \<longrightarrow>
          (\<forall>v \<in> snd ` set m1. \<exists>x. v = ''func'' @ str x)"
      by blast
    with keys show ?thesis by blast
  qed
qed

lemma structs_fold:
  "fold ir_struct_step items (ir, flds, m, used) = (ir1, flds1, m1, used1) \<Longrightarrow>
     used1 = used @ used_in_structs (map snd items)
     \<and> (\<forall>g. has_key m1 g = (has_key m g \<or> g \<in> set (struct_methods (map snd items))))
     \<and> ((\<forall>v \<in> snd ` set m. \<exists>x. v = ''func'' @ str x) \<longrightarrow>
          (\<forall>v \<in> snd ` set m1. \<exists>x. v = ''func'' @ str x))"
proof (induction items arbitrary: ir flds m used)
  case Nil
  then show ?case by (simp add: used_in_structs_def struct_methods_def)
next
  case (Cons item items)
  obtain i strct st where item: "item = (i, strct, st)" by (cases item) auto
  obtain irf fl where fl: "fields_loop (map fst (sort_dict (fields' st))) 0 [] flds = (irf, fl)"
    by (cases "fields_loop (map fst (sort_dict (fields' st))) 0 [] flds") auto
  obtain irfn m' where fn:
    "fold (functions_step strct) (List.enumerate 0 (functions' st)) ([], m) = (irfn, m')"
    by (cases "fold (functions_step strct) (List.enumerate 0 (functions' st)) ([], m)") auto
  have step: "ir_struct_step item (ir, flds, m, used) =
      (AList.update strct
         \<lparr>name = ''struct'' @ str i, fields' = irf, functions' = irfn, top_lvl_used = []\<rparr> ir,
       fl, m', used @ top_lvl_used st)"
    by (simp add: ir_struct_step_def item fl fn)
  have "snd ` set (List.enumerate 0 (functions' st)) = set (functions' st)"
    by (metis map_snd_enumerate set_map)
  then have keys: "(fst \<circ> snd) ` set (List.enumerate 0 (functions' st)) = fst ` set (functions' st)"
    by (metis image_comp)
  from functions_fold[OF fn] keys
  have m': "\<forall>g. has_key m' g = (has_key m g \<or> (strct \<noteq> None \<and> g \<in> fst ` set (functions' st)))"
    "(\<forall>v \<in> snd ` set m. \<exists>x. v = ''func'' @ str x) \<longrightarrow> (\<forall>v \<in> snd ` set m'. \<exists>x. v = ''func'' @ str x)"
    by simp_all
  from Cons.prems step
  have "fold ir_struct_step items
          (AList.update strct
             \<lparr>name = ''struct'' @ str i, fields' = irf, functions' = irfn, top_lvl_used = []\<rparr> ir,
           fl, m', used @ top_lvl_used st) = (ir1, flds1, m1, used1)"
    by simp
  from Cons.IH[OF this] m' item show ?case
    by (auto simp: used_in_structs_def struct_methods_def)
qed

lemma str_func_not_topfunc: "\<not> prefix ''topfunc'' (''func'' @ s)" "\<not> prefix ''topfunc'' ''main''"
  by simp_all

text \<open>
  C6, amended. A top-level function other than \<open>main\<close> receives a name \<open>topfunc{i}\<close> if and
  only if it is referenced from within at least one struct; when \<open>main\<close> is not among the
  referenced functions, \<open>i\<close> counts the referenced functions before it in the order of the
  top-level function table. Every other top-level function whose name is not also the
  name of a function owned by a struct receives \<open>func{j}\<close>, or keeps the name \<open>main\<close> if that
  is its name, \<open>j\<close> counting such functions before it (\<open>main\<close> included). Nothing is said of
  a \<open>main\<close> that is referenced from within a struct.
\<close>

theorem top_level_names:
  assumes "get_ir_renames info = Inr (ir, flds, methods)"
    and "dict_get info None = Inr top_st"
    and "distinct (map fst (functions' top_st))"
    and "k < length (functions' top_st)"
  shows "let fs = map fst (functions' top_st); f = fs ! k;
             used = set (used_in_structs info); owned = set (struct_methods info)
         in (f \<in> used \<and> f \<noteq> ''main'' \<longrightarrow>
               (\<exists>i. map_of methods f = Some (''topfunc'' @ str i)))
          \<and> (f \<in> used \<and> ''main'' \<notin> used \<longrightarrow>
               map_of methods f =
                 Some (''topfunc'' @ str (length (filter (\<lambda>g. g \<in> used) (take k fs)))))
          \<and> (f \<notin> used \<and> f \<notin> owned \<longrightarrow>
               map_of methods f =
                 Some (if f = ''main'' then ''main''
                       else ''func'' @ str (length (filter (\<lambda>g. g \<notin> used \<and> g \<notin> owned) (take k fs)))))
          \<and> (f \<notin> used \<longrightarrow> (\<exists>nm. map_of methods f = Some nm \<and> \<not> prefix ''topfunc'' nm))"
proof -
  let ?fs = "map fst (functions' top_st)"
  let ?f = "?fs ! k"
  obtain ir0 flds0 m0 used0 where
    loop: "fold ir_struct_step (List.enumerate 0 info) ([], [], [], []) = (ir0, flds0, m0, used0)"
    by (cases "fold ir_struct_step (List.enumerate 0 info) ([], [], [], [])") auto
  have methods: "methods = top_loop ?fs used0 0 0 m0"
    using assms(1,2) loop by (simp add: get_ir_renames_def bind_err_def)
  from structs_fold[OF loop]
  have used0: "used0 = used_in_structs info"
    and keys: "\<And>g. has_key m0 g = (g \<in> set (struct_methods info))"
    and vals: "\<forall>v \<in> snd ` set m0. \<exists>x. v = ''func'' @ str x"
    by (simp_all add: has_key_def)
  have k: "k < length ?fs" using assms(4) by simp
  have split: "?fs = take k ?fs @ ?f # drop (Suc k) ?fs" using k by (rule id_take_nth_drop)
  have "distinct (take k ?fs @ ?f # drop (Suc k) ?fs)" using assms(3) split by simp
  from top_loop_at[OF this, of used0 0 0 m0] split
  have at: "map_of methods ?f =
     (if ?f \<in> set used0
      then Some (''topfunc'' @ str (length (filter (\<lambda>g. g \<in> set used0) (take k ?fs))))
      else if has_key m0 ?f then map_of m0 ?f
      else Some (if ?f = ''main'' then ''main''
                 else ''func'' @ str (length (filter (\<lambda>g. g \<notin> set used0 \<and> \<not> has_key m0 g) (take k ?fs)))))"
    by (simp add: methods)
  have owned: "has_key m0 ?f \<Longrightarrow> \<exists>nm. map_of m0 ?f = Some nm \<and> \<not> prefix ''topfunc'' nm"
  proof -
    assume "has_key m0 ?f"
    then obtain nm where nm: "map_of m0 ?f = Some nm" by (auto simp: has_key_def)
    then have "nm \<in> snd ` set m0" by (force dest: map_of_SomeD)
    with vals obtain x where "nm = ''func'' @ str x" by blast
    with nm show ?thesis using str_func_not_topfunc(1) by blast
  qed
  have c: "?f \<notin> set used0 \<Longrightarrow> \<exists>nm. map_of methods ?f = Some nm \<and> \<not> prefix ''topfunc'' nm"
    using at owned by (cases "has_key m0 ?f") (simp_all add: str_func_not_topfunc)
  have a: "\<exists>i. map_of methods ?f = Some (''topfunc'' @ str i)" if "?f \<in> set used0"
  proof -
    have "map_of methods ?f =
        Some (''topfunc'' @ str (length (filter (\<lambda>g. g \<in> set used0) (take k ?fs))))"
      using at that by (simp only: if_True)
    then show ?thesis by (rule exI)
  qed
  show ?thesis
    unfolding Let_def using at a c by (simp add: used0 keys)
qed

theorem top_level_names_witness:
  "get_ir_renames
     [(None, \<lparr>name = ''Top Level'', fields' = [],
              functions' = [(''g'', new_Function), (''main'', new_Function)],
              top_lvl_used = []\<rparr>),
      (Some ''S'', \<lparr>name = ''S'', fields' = [], functions' = [(''h'', new_Function)],
                 top_lvl_used = [''g'']\<rparr>)] =
     Inr ([(None, \<lparr>name = ''struct0'', fields' = [],
                   functions' = [(''g'', new_Function), (''main'', new_Function)],
                   top_lvl_used = []\<rparr>),
           (Some ''S'', \<lparr>name = ''struct1'', fields' = [], functions' = [(''h'', new_Function)],
                      top_lvl_used = []\<rparr>)],
          [], [(''h'', ''func0''), (''g'', ''topfunc0''), (''main'', ''main'')])
   \<and> map_of [(''h'', ''func0''), (''g'', ''topfunc0''), (''main'', ''main'')] ''g'' =
       Some (''topfunc'' @ str 0)
   \<and> map_of [(''h'', ''func0''), (''g'', ''topfunc0''), (''main'', ''main'')] ''main'' =
       Some ''main''"
proof -
  let ?top = "\<lparr>name = ''Top Level'', fields' = [],
              functions' = [(''g'', new_Function), (''main'', new_Function)],
              top_lvl_used = []\<rparr> :: int Struct"
  let ?info = "[(None, ?top),
      (Some ''S'', \<lparr>name = ''S'', fields' = [], functions' = [(''h'', new_Function)],
                 top_lvl_used = [''g'']\<rparr>)]"
  let ?m = "[(''h'', ''func0''), (''g'', ''topfunc0''), (''main'', ''main'')]"
  have run: "get_ir_renames ?info =
     Inr ([(None, \<lparr>name = ''struct0'', fields' = [],
                   functions' = [(''g'', new_Function), (''main'', new_Function)],
                   top_lvl_used = []\<rparr>),
           (Some ''S'', \<lparr>name = ''struct1'', fields' = [], functions' = [(''h'', new_Function)],
                      top_lvl_used = []\<rparr>)],
          [], ?m)"
    by code_simp
  have top: "dict_get ?info None = Inr ?top" by (simp add: dict_get_def)
  have d: "distinct (map fst (functions' ?top))" by simp
  have u: "used_in_structs ?info = [''g'']" "struct_methods ?info = [''h'']"
    by (simp_all add: used_in_structs_def struct_methods_def)
  have g: "map_of ?m ''g'' = Some (''topfunc'' @ str 0)"
    using top_level_names[OF run top d, of 0] by (simp add: Let_def u)
  have m: "map_of ?m ''main'' = Some ''main''"
    using top_level_names[OF run top d, of 1] by (simp add: Let_def u)
  from run g m show ?thesis by blast
qed

text \<open>
  C6 as stated fails: in \<open>int a(){} int b(){} struct S{int h(){b(); a();}};\<close> the
  functions \<open>a\<close> and \<open>b\<close> are referenced from within one struct only, and both get a
  \<open>topfunc\<close> name; and \<open>a\<close>, referenced after \<open>b\<close> but defined before it, is \<open>topfunc0\<close>.
\<close>

theorem top_level_names_counterexample:
  "get_stats [''int'', ''a'', ''('', '')'', ''{'', ''}'', ''int'', ''b'', ''('', '')'', ''{'', ''}'',
              ''struct'', ''S'', ''{'', ''int'', ''h'', ''('', '')'', ''{'', ''b'', ''('', '')'',
              '';'', ''a'', ''('', '')'', '';'', ''}'', ''}'', '';''] =
     Inr [(None, \<lparr>name = ''Top Level'', fields' = [],
                  functions' = [(''a'', new_Function), (''b'', new_Function)],
                  top_lvl_used = []\<rparr>),
          (Some ''S'', \<lparr>name = ''S'', fields' = [], functions' = [(''h'', new_Function)],
                     top_lvl_used = [''b'', ''a'']\<rparr>)]
   \<and> get_ir_renames
       [(None, \<lparr>name = ''Top Level'', fields' = [],
                functions' = [(''a'', new_Function), (''b'', new_Function)],
                top_lvl_used = []\<rparr>),
        (Some ''S'', \<lparr>name = ''S'', fields' = [], functions' = [(''h'', new_Function)],
                   top_lvl_used = [''b'', ''a'']\<rparr>)] =
     Inr ([(None, \<lparr>name = ''struct0'', fields' = [],
                   functions' = [(''a'', new_Function), (''b'', new_Function)],
                   top_lvl_used = []\<rparr>),
           (Some ''S'', \<lparr>name = ''struct1'', fields' = [], functions' = [(''h'', new_Function)],
                      top_lvl_used = []\<rparr>)],
          [], [(''h'', ''func0''), (''a'', ''topfunc0''), (''b'', ''topfunc1'')])"
proof (rule conjI)
  show "get_stats [''int'', ''a'', ''('', '')'', ''{'', ''}'', ''int'', ''b'', ''('', '')'', ''{'', ''}'',
              ''struct'', ''S'', ''{'', ''int'', ''h'', ''('', '')'', ''{'', ''b'', ''('', '')'',
              '';'', ''a'', ''('', '')'', '';'', ''}'', ''}'', '';''] =
     Inr [(None, \<lparr>name = ''Top Level'', fields' = [],
                  functions' = [(''a'', new_Function), (''b'', new_Function)],
                  top_lvl_used = []\<rparr>),
          (Some ''S'', \<lparr>name = ''S'', fields' = [], functions' = [(''h'', new_Function)],
                     top_lvl_used = [''b'', ''a'']\<rparr>)]"
    by code_simp
next
  show "get_ir_renames
       [(None, \<lparr>name = ''Top Level'', fields' = [],
                functions' = [(''a'', new_Function), (''b'', new_Function)],
                top_lvl_used = []\<rparr>),
        (Some ''S'', \<lparr>name = ''S'', fields' = [], functions' = [(''h'', new_Function)],
                   top_lvl_used = [''b'', ''a'']\<rparr>)] =
     Inr ([(None, \<lparr>name = ''struct0'', fields' = [],
                   functions' = [(''a'', new_Function), (''b'', new_Function)],
                   top_lvl_used = []\<rparr>),
           (Some ''S'', \<lparr>name = ''struct1'', fields' = [], functions' = [(''h'', new_Function)],
                      top_lvl_used = []\<rparr>)],
          [], [(''h'', ''func0''), (''a'', ''topfunc0''), (''b'', ''topfunc1'')])"
    by code_simp
qed

section \<open>Runs of the pipeline\<close>

text \<open>
  C4. The analyzer on the stripped token stream of
  \<open>struct S { int x; int f(int y) { int z = y + x; return z; } };\<close>: the field \<open>x\<close> and the
  argument \<open>y\<close>, each declared once and used once, are recorded with count 3 (the
  declaring occurrence is counted twice), the local \<open>z\<close> with count 2; the only other
  table, the top level's, holds none of them.
\<close>

theorem get_stats_example:
  "map_option (\<lambda>grouped. get_stats (strip grouped))
     (group (fetch_tokens ''struct S { int x; int f(int y) { int z = y + x; return z; } };'')) =
   Some (Inr [(None, \<lparr>name = ''Top Level'', fields' = [], functions' = [], top_lvl_used = []\<rparr>),
              (Some ''S'',
               \<lparr>name = ''S'', fields' = [(''x'', 3)],
                functions' = [(''f'', \<lparr>args = [(''y'', 3)], variables = [(''z'', 2)]\<rparr>)],
                top_lvl_used = []\<rparr>)])"
  by code_simp

text \<open>
  C8 as stated fails: the reserved keyword \<open>size\<close>, declared as an argument, is renamed
  by the IR stage and does not appear in the output.
\<close>

theorem keyword_renamed_counterexample:
  "''size'' \<in> set KEYWORDS
   \<and> minify ''int f(int size){return size;}'' =
       Some (Inr (''int func0(int arg0){return arg0;}'', ''int B(int A){return A;}''))"
proof (rule conjI)
  show "''size'' \<in> set KEYWORDS" by (simp add: KEYWORDS_def TYPES_def)
  show "minify ''int f(int size){return size;}'' =
       Some (Inr (''int func0(int arg0){return arg0;}'', ''int B(int A){return A;}''))"
    by code_simp
qed

text \<open>
  C10. The pipeline raises on some inputs. On \<open>int f(a\<close>, \<open>get_stats\<close> reads
  \<open>tokens[i + 1]\<close> (line 224) for the last token, inside a parameter list that the input
  does not close. On \<open>int f(struct S x){}\<close> it looks up the record of \<open>f\<close> under the struct
  \<open>S\<close> that the parameter list has just named. On \<open>int g(){} struct S{int x=g();};\<close>
  the analyzer and \<open>get_ir_renames\<close> return, and \<open>to_ir\<close> takes the call of \<open>g\<close> for the
  entry of a function and looks up \<open>ir['S'].functions['g']\<close>.
\<close>

theorem minify_raises:
  "minify ''int f(a'' = Some (Inl IndexError)
   \<and> get_stats [''int'', ''f'', ''('', ''a''] = Inl IndexError
   \<and> get_stats [''int'', ''f'', ''('', ''struct'', ''S'', ''x'', '')'', ''{'', ''}''] = Inl KeyError
   \<and> minify ''int g(){} struct S{int x=g();};'' = Some (Inl KeyError)
   \<and> to_ir [''int'', ''g'', ''('', '')'', ''{'', ''}'', ''struct'', ''S'', ''{'', ''int'', ''x'',
             ''='', ''g'', ''('', '')'', '';'', ''}'', '';'']
        [(None, \<lparr>name = ''struct0'', fields' = [], functions' = [(''g'', new_Function)],
                 top_lvl_used = []\<rparr>),
         (Some ''S'', \<lparr>name = ''struct1'', fields' = [(''x'', ''field0'')], functions' = [],
                    top_lvl_used = []\<rparr>)]
        [(''x'', ''field0'')] [(''g'', ''topfunc0'')] =
       Inl KeyError"
proof (intro conjI)
  show "minify ''int f(a'' = Some (Inl IndexError)" by code_simp
  show "get_stats [''int'', ''f'', ''('', ''a''] = Inl IndexError" by code_simp
  show "get_stats [''int'', ''f'', ''('', ''struct'', ''S'', ''x'', '')'', ''{'', ''}''] = Inl KeyError"
    by code_simp
  show "minify ''int g(){} struct S{int x=g();};'' = Some (Inl KeyError)" by code_simp
  show "to_ir [''int'', ''g'', ''('', '')'', ''{'', ''}'', ''struct'', ''S'', ''{'', ''int'', ''x'',
             ''='', ''g'', ''('', '')'', '';'', ''}'', '';'']
        [(None, \<lparr>name = ''struct0'', fields' = [], functions' = [(''g'', new_Function)],
                 top_lvl_used = []\<rparr>),
         (Some ''S'', \<lparr>name = ''struct1'', fields' = [(''x'', ''field0'')], functions' = [],
                    top_lvl_used = []\<rparr>)]
        [(''x'', ''field0'')] [(''g'', ''topfunc0'')] =
       Inl KeyError"
    by code_simp
qed

section \<open>Tokens are never empty\<close>

lemma fetch_tokens_nonempty: "\<forall>t \<in> set (fetch_tokens s). t \<noteq> []"
  by (simp add: fetch_tokens_def)

lemma find_end_lower: "find_end toks end_m lo = Some p \<Longrightarrow> lo \<le> p"
  by (auto simp: find_end_def find_Some_iff)

lemma end_index_positive:
  assumes "start \<noteq> []"
  shows "0 < end_index start end_m ie toks"
proof -
  have "0 < p" if "find_end toks end_m (length start) = Some p" for p
  proof -
    have "length start \<le> p" using that by (rule find_end_lower)
    moreover have "0 < length start" using assms by simp
    ultimately show ?thesis by linarith
  qed
  then show ?thesis by (auto simp: end_index_def split: option.splits)
qed

lemma end_index_matched:
  "end_index start end_m ie toks \<noteq> 1 \<Longrightarrow> start = take (length start) toks"
  by (auto simp: end_index_def split: if_splits)

lemma grouped_tokens_nonempty:
  assumes "\<forall>t \<in> set toks. t \<noteq> []" "toks \<noteq> []" "start \<noteq> []"
    and "isp \<or> (\<exists>c cs. hd start = c # cs \<and> c \<noteq> CHR '' '')"
  shows "grouped_tokens isp (end_index start end_m ie toks) toks \<noteq> []"
proof -
  let ?e = "end_index start end_m ie toks"
  obtain t ts where toks: "toks = t # ts" using assms(2) by (cases toks) auto
  obtain e' where e: "?e = Suc e'" using end_index_positive[OF assms(3), of end_m ie toks]
    by (cases ?e) auto
  have t: "t \<noteq> []" using assms(1) toks by simp
  have joined: "concat (take ?e toks) = t @ concat (take e' ts)" using e unfolding toks by simp
  show ?thesis
  proof (cases "\<not> isp \<and> ?e \<noteq> 1")
    case False
    then show ?thesis using joined t by (auto simp: grouped_tokens_def Let_def)
  next
    case True
    then have "start = take (length start) toks" using end_index_matched by blast
    then have "hd start = t" using assms(3) toks by (cases start) auto
    with assms(4) True obtain c cs where "t = c # cs" "c \<noteq> CHR '' ''" by auto
    then show ?thesis using True joined by (simp add: grouped_tokens_def Let_def)
  qed
qed

lemma group_loop_nonempty:
  "start \<noteq> [] \<Longrightarrow> isp \<or> (\<exists>c cs. hd start = c # cs \<and> c \<noteq> CHR '' '') \<Longrightarrow>
   \<forall>t \<in> set toks. t \<noteq> [] \<Longrightarrow>
     \<exists>out. group_loop start end_m ie isp toks = Some out \<and> (\<forall>t \<in> set out. t \<noteq> [])"
proof (induction start end_m ie isp toks rule: group_loop.induct)
  case (1 start end_m ie isp toks)
  show ?case
  proof (cases "toks = []")
    case True
    then show ?thesis by (simp add: group_loop.simps)
  next
    case False
    let ?e = "end_index start end_m ie toks"
    have pos: "?e \<noteq> 0" using end_index_positive[OF "1.prems"(1), of end_m ie toks] by simp
    have rest: "\<forall>t \<in> set (drop ?e toks). t \<noteq> []"
      using "1.prems"(3) by (auto dest: in_set_dropD)
    from "1.IH"[OF False pos "1.prems"(1,2) rest] obtain out where
      out: "group_loop start end_m ie isp (drop ?e toks) = Some out" "\<forall>t \<in> set out. t \<noteq> []"
      by blast
    have "grouped_tokens isp ?e toks \<noteq> []"
      using grouped_tokens_nonempty[OF "1.prems"(3) False "1.prems"(1,2)] .
    with False pos out show ?thesis by (subst group_loop.simps) simp
  qed
qed

lemma group_tokens_nonempty:
  "start \<noteq> [] \<Longrightarrow> isp \<or> (\<exists>c cs. hd start = c # cs \<and> c \<noteq> CHR '' '') \<Longrightarrow>
   \<forall>t \<in> set toks. t \<noteq> [] \<Longrightarrow>
     \<exists>out. group_tokens toks start end_m ie isp = Some out \<and> (\<forall>t \<in> set out. t \<noteq> [])"
  unfolding group_tokens_def by (rule group_loop_nonempty)

text \<open>The grouper of the pipeline always returns, and its tokens are not empty.\<close>

lemma group_nonempty:
  assumes "\<forall>t \<in> set toks. t \<noteq> []"
  shows "\<exists>out. group toks = Some out \<and> (\<forall>t \<in> set out. t \<noteq> [])"
proof -
  obtain t1 where t1: "group_tokens toks [[CHR 0x22]] [[CHR 0x22]] True True = Some t1"
    "\<forall>t \<in> set t1. t \<noteq> []"
    using group_tokens_nonempty[OF _ _ assms, of "[[CHR 0x22]]" True "[[CHR 0x22]]" True] by auto
  obtain t2 where t2: "group_tokens t1 [''/'', ''*''] [''*'', ''/''] True True = Some t2"
    "\<forall>t \<in> set t2. t \<noteq> []"
    using group_tokens_nonempty[OF _ _ t1(2), of "[''/'', ''*'']" True "[''*'', ''/'']" True] by auto
  obtain t3 where t3: "group_tokens t2 [''['', ''[''] ['']'', '']''] True True = Some t3"
    "\<forall>t \<in> set t3. t \<noteq> []"
    using group_tokens_nonempty[OF _ _ t2(2), of "[''['', ''['']" True "['']'', '']'']" True] by auto
  obtain t4 where t4: "group_tokens t3 [''#'', ''include''] [newline] True False = Some t4"
    "\<forall>t \<in> set t4. t \<noteq> []"
    using group_tokens_nonempty[OF _ _ t3(2), of "[''#'', ''include'']" False "[newline]" True] by auto
  obtain t5 where t5:
    "group_tokens t4 [''#'', ''ifndef'', '' '', ''MINIFIED''] [''#'', ''endif''] True True = Some t5"
    "\<forall>t \<in> set t5. t \<noteq> []"
    using group_tokens_nonempty[OF _ _ t4(2), of "[''#'', ''ifndef'', '' '', ''MINIFIED'']" True
        "[''#'', ''endif'']" True] by auto
  obtain t6 where t6: "group_tokens t5 [''/'', ''/''] [newline] False True = Some t6"
    "\<forall>t \<in> set t6. t \<noteq> []"
    using group_tokens_nonempty[OF _ _ t5(2), of "[''/'', ''/'']" True "[newline]" False] by auto
  obtain t7 where t7: "group_tokens t6 [[CHR 0x27]] [[CHR 0x27]] True True = Some t7"
    "\<forall>t \<in> set t7. t \<noteq> []"
    using group_tokens_nonempty[OF _ _ t6(2), of "[[CHR 0x27]]" True "[[CHR 0x27]]" True] by auto
  from t1 t2 t3 t4 t5 t6 t7 show ?thesis by (simp add: group_def)
qed

text \<open>Every intermediate name is a non-empty string.\<close>

lemma update_values: "snd ` set (AList.update k v d) \<subseteq> insert v (snd ` set d)"
  by (induction d) auto

lemma nonempty_values_update:
  "nonempty_values d \<Longrightarrow> v \<noteq> [] \<Longrightarrow> nonempty_values (AList.update k v d)"
  unfolding nonempty_values_def using update_values[of k v d] by blast

lemma nonempty_values_lookup: "nonempty_values d \<Longrightarrow> map_of d k = Some v \<Longrightarrow> v \<noteq> []"
  unfolding nonempty_values_def by (force dest: map_of_SomeD)

lemma number_fold_nonempty:
  "pre \<noteq> [] \<Longrightarrow> nonempty_values d \<Longrightarrow>
     nonempty_values (fold (\<lambda>(y, k) d. AList.update k (pre @ str y) d) items d)"
proof (induction items arbitrary: d)
  case Nil
  then show ?case by simp
next
  case (Cons item items)
  obtain y k where item: "item = (y, k)" by (cases item) auto
  have "nonempty_values (AList.update k (pre @ str y) d)"
    using Cons.prems by (intro nonempty_values_update) simp_all
  from Cons.IH[OF Cons.prems(1) this] show ?case by (simp add: item)
qed

lemma number_names_nonempty: "pre \<noteq> [] \<Longrightarrow> nonempty_values (number_names pre ks)"
  unfolding number_names_def by (rule number_fold_nonempty) (simp_all add: nonempty_values_def)

lemma ir_function_nonempty:
  "nonempty_values (args (ir_function fr)) \<and> nonempty_values (variables (ir_function fr))"
  by (simp add: ir_function_def number_names_nonempty)

lemma fields_loop_nonempty:
  "fields_loop ks j irf flds = (irf1, flds1) \<Longrightarrow> nonempty_values flds \<Longrightarrow> nonempty_values flds1"
proof (induction ks arbitrary: j irf flds)
  case Nil
  then show ?case by simp
next
  case (Cons k ks)
  show ?case
  proof (cases "map_of flds k")
    case None
    have "nonempty_values (AList.update k (''field'' @ str j) flds)"
      using Cons.prems(2) by (intro nonempty_values_update) simp_all
    moreover have "fields_loop ks (j + 1) (AList.update k (''field'' @ str j) irf)
        (AList.update k (''field'' @ str j) flds) = (irf1, flds1)"
      using Cons.prems(1) None by (simp add: Let_def)
    ultimately show ?thesis using Cons.IH by blast
  next
    case (Some nm)
    then have "fields_loop ks j (AList.update k nm irf) flds = (irf1, flds1)"
      using Cons.prems(1) by simp
    then show ?thesis using Cons.IH Cons.prems(2) by blast
  qed
qed

lemma named_functions_update:
  assumes "named_functions fns"
  shows "named_functions (AList.update func (ir_function fr) fns)"
  unfolding named_functions_def
proof
  fix fr' assume "fr' \<in> snd ` set (AList.update func (ir_function fr) fns)"
  then have "fr' = ir_function fr \<or> fr' \<in> snd ` set fns"
    using update_values[of func "ir_function fr" fns] by auto
  then show "nonempty_values (args fr') \<and> nonempty_values (variables fr')"
  proof
    assume "fr' = ir_function fr"
    then show ?thesis using ir_function_nonempty[of fr] by simp
  next
    assume "fr' \<in> snd ` set fns"
    with assms show ?thesis unfolding named_functions_def by (rule bspec)
  qed
qed

lemma functions_fold_nonempty:
  "fold (functions_step strct) items (irf, m) = (irf1, m1) \<Longrightarrow>
     named_functions irf \<Longrightarrow> nonempty_values m \<Longrightarrow>
     named_functions irf1 \<and> nonempty_values m1"
proof (induction items arbitrary: irf m)
  case Nil
  then show ?case by simp
next
  case (Cons item items)
  obtain x func fr where item: "item = (x, func, fr)" by (cases item) auto
  let ?irf = "AList.update func (ir_function fr) irf"
  let ?m = "if strct \<noteq> None then AList.update func (''func'' @ str x) m else m"
  have step: "functions_step strct item (irf, m) = (?irf, ?m)"
    by (simp add: functions_step_def item)
  have a: "named_functions ?irf" using Cons.prems(2) by (rule named_functions_update)
  have "nonempty_values (AList.update func (''func'' @ str x) m)"
    using Cons.prems(3) by (intro nonempty_values_update) simp_all
  then have b: "nonempty_values ?m" using Cons.prems(3) by simp
  have "fold (functions_step strct) items (?irf, ?m) = (irf1, m1)"
    using Cons.prems(1) step by simp
  from Cons.IH[OF this a b] show ?case .
qed

lemma structs_fold_nonempty:
  "fold ir_struct_step items (ir, flds, m, used) = (ir1, flds1, m1, used1) \<Longrightarrow>
     named_tables ir flds m \<Longrightarrow> named_tables ir1 flds1 m1"
proof (induction items arbitrary: ir flds m used)
  case Nil
  then show ?case by simp
next
  case (Cons item items)
  obtain i strct st where item: "item = (i, strct, st)" by (cases item) auto
  obtain irf fl where fl: "fields_loop (map fst (sort_dict (fields' st))) 0 [] flds = (irf, fl)"
    by (cases "fields_loop (map fst (sort_dict (fields' st))) 0 [] flds") auto
  obtain irfn m' where fn:
    "fold (functions_step strct) (List.enumerate 0 (functions' st)) ([], m) = (irfn, m')"
    by (cases "fold (functions_step strct) (List.enumerate 0 (functions' st)) ([], m)") auto
  let ?rec = "\<lparr>name = ''struct'' @ str i, fields' = irf, functions' = irfn, top_lvl_used = []\<rparr>"
  have step: "ir_struct_step item (ir, flds, m, used) =
      (AList.update strct ?rec ir, fl, m', used @ top_lvl_used st)"
    by (simp add: ir_struct_step_def item fl fn)
  have old: "\<forall>st \<in> snd ` set ir. named_functions (functions' st)" "nonempty_values flds"
    "nonempty_values m"
    using Cons.prems(2) by (simp_all add: named_tables_def)
  have fl': "nonempty_values fl" using fields_loop_nonempty[OF fl old(2)] .
  have "named_functions []" by (simp add: named_functions_def)
  from functions_fold_nonempty[OF fn this old(3)]
  have fn': "named_functions irfn" "nonempty_values m'" by simp_all
  have "\<forall>st \<in> snd ` set (AList.update strct ?rec ir). named_functions (functions' st)"
  proof
    fix st' assume "st' \<in> snd ` set (AList.update strct ?rec ir)"
    then have "st' = ?rec \<or> st' \<in> snd ` set ir"
      using update_values[of strct ?rec ir] by auto
    then show "named_functions (functions' st')"
    proof
      assume "st' = ?rec"
      then show ?thesis using fn'(1) by simp
    next
      assume "st' \<in> snd ` set ir"
      with old(1) show ?thesis by (rule bspec)
    qed
  qed
  with fl' fn'(2) have "named_tables (AList.update strct ?rec ir) fl m'"
    by (simp add: named_tables_def)
  moreover have "fold ir_struct_step items
      (AList.update strct ?rec ir, fl, m', used @ top_lvl_used st) = (ir1, flds1, m1, used1)"
    using Cons.prems(1) step by simp
  ultimately show ?case using Cons.IH by blast
qed

lemma top_loop_nonempty:
  "nonempty_values m \<Longrightarrow> nonempty_values (top_loop fs used i j m)"
proof (induction fs arbitrary: i j m)
  case Nil
  then show ?case by simp
next
  case (Cons f fs)
  have a: "nonempty_values (AList.update f (''topfunc'' @ str i) m)"
    using Cons.prems by (intro nonempty_values_update) simp_all
  have b: "nonempty_values (AList.update f (if f = ''main'' then ''main'' else ''func'' @ str j) m)"
    using Cons.prems by (intro nonempty_values_update) simp_all
  show ?case using Cons.IH[OF a] Cons.IH[OF b] Cons.IH[OF Cons.prems] by simp
qed

lemma get_ir_renames_nonempty:
  assumes "get_ir_renames info = Inr (ir, flds, methods)"
  shows "named_tables ir flds methods"
proof -
  obtain ir0 flds0 m0 used0 where
    loop: "fold ir_struct_step (List.enumerate 0 info) ([], [], [], []) = (ir0, flds0, m0, used0)"
    by (cases "fold ir_struct_step (List.enumerate 0 info) ([], [], [], [])") auto
  have "named_tables [] [] []" by (simp add: named_tables_def nonempty_values_def)
  from structs_fold_nonempty[OF loop this] have t: "named_tables ir0 flds0 m0" .
  from assms loop obtain top_st :: "int Struct" where
    "ir = ir0" "flds = flds0" "methods = top_loop (map fst (functions' top_st)) used0 0 0 m0"
    by (auto simp: get_ir_renames_def bind_err_def split: sum.splits)
  with t top_loop_nonempty show ?thesis by (simp add: named_tables_def)
qed

lemma scoped_table_nonempty:
  assumes "named_tables ir flds methods"
    and "scoped_table ir strct fn sel tok = Some v" "sel = args \<or> sel = variables"
  shows "v \<noteq> []"
proof -
  from assms(2) obtain fr where fr: "get_function ir strct fn = Inr fr" "map_of (sel fr) tok = Some v"
    by (auto simp: scoped_table_def split: sum.splits)
  then obtain st f where st: "map_of ir strct = Some st" "map_of (functions' st) f = Some fr"
    by (auto simp: get_function_def bind_err_def dict_get_def split: option.splits)
  then have "st \<in> snd ` set ir" "fr \<in> snd ` set (functions' st)"
    by (force dest: map_of_SomeD)+
  then have "nonempty_values (args fr) \<and> nonempty_values (variables fr)"
    using assms(1) by (auto simp: named_tables_def named_functions_def)
  with assms(3) have "nonempty_values (sel fr)" by auto
  then show ?thesis using fr(2) by (rule nonempty_values_lookup)
qed

lemma lookup_order_cases:
  "lookup_order a f m v tok = tok \<or> a tok = Some (lookup_order a f m v tok)
   \<or> f tok = Some (lookup_order a f m v tok) \<or> m tok = Some (lookup_order a f m v tok)
   \<or> v tok = Some (lookup_order a f m v tok)"
  by (simp add: lookup_order_def split: option.splits)

lemma ir_rename_nonempty:
  assumes "named_tables ir flds methods" "tok \<noteq> []"
    and "ir_rename ir flds methods strct fn tok = Inr renamed"
  shows "renamed \<noteq> []"
proof -
  have r: "renamed = lookup_order (scoped_table ir strct fn args) (map_of flds) (map_of methods)
             (scoped_table ir strct fn variables) tok"
    using assms(3) by (rule ir_rename_order)
  have tables: "nonempty_values flds" "nonempty_values methods"
    using assms(1) by (simp_all add: named_tables_def)
  from lookup_order_cases[of "scoped_table ir strct fn args" "map_of flds" "map_of methods"
      "scoped_table ir strct fn variables" tok]
  consider "renamed = tok" | "scoped_table ir strct fn args tok = Some renamed"
    | "map_of flds tok = Some renamed" | "map_of methods tok = Some renamed"
    | "scoped_table ir strct fn variables tok = Some renamed"
    unfolding r by blast
  then show ?thesis
  proof cases
    case 1
    then show ?thesis using assms(2) by simp
  next
    case 2
    then show ?thesis using scoped_table_nonempty[OF assms(1)] by blast
  next
    case 3
    with tables(1) show ?thesis by (rule nonempty_values_lookup)
  next
    case 4
    with tables(2) show ?thesis by (rule nonempty_values_lookup)
  next
    case 5
    then show ?thesis using scoped_table_nonempty[OF assms(1)] by blast
  qed
qed

lemma to_ir_loop_nonempty:
  "to_ir_loop ir flds methods s toks = Inr s1 \<Longrightarrow> named_tables ir flds methods \<Longrightarrow>
   \<forall>t \<in> set toks. t \<noteq> [] \<Longrightarrow> \<forall>t \<in> set (new_tokens s). t \<noteq> [] \<Longrightarrow>
     \<forall>t \<in> set (new_tokens s1). t \<noteq> []"
proof (induction toks arbitrary: s)
  case Nil
  then show ?case by simp
next
  case (Cons tok toks)
  from Cons.prems(1) obtain s' where
    step: "to_ir_step ir flds methods s tok = Inr s'"
    and rest: "to_ir_loop ir flds methods s' toks = Inr s1"
    by (auto simp: bind_err_def split: sum.splits)
  define s0 where
    "s0 = ir_enter_struct
            (exit_struct (ir_enter_function methods (ir_args (exit_function s tok) tok) tok) tok) tok"
  have nt: "new_tokens s0 = new_tokens s"
    by (simp add: s0_def ir_enter_struct_def exit_struct_def ir_enter_function_def ir_args_def
        exit_function_def Let_def)
  from step obtain renamed where
    r: "ir_rename ir flds methods (struct s0) (function' s0) tok = Inr renamed"
    and s': "s' = s0\<lparr>prev := Some renamed, new_tokens := new_tokens s0 @ [renamed]\<rparr>"
    by (auto simp: to_ir_step_def Let_def s0_def bind_err_def split: sum.splits)
  have "tok \<noteq> []" using Cons.prems(3) by simp
  from ir_rename_nonempty[OF Cons.prems(2) this r] have "renamed \<noteq> []" .
  then have "\<forall>t \<in> set (new_tokens s'). t \<noteq> []" using s' nt Cons.prems(4) by simp
  moreover have "\<forall>t \<in> set toks. t \<noteq> []" using Cons.prems(3) by simp
  ultimately show ?case using Cons.IH[OF rest Cons.prems(2)] by blast
qed

text \<open>
  The tokens that reach the final stage are never empty, in every run of the pipeline.
\<close>

lemma analyse_nonempty:
  assumes "group (fetch_tokens content) = Some grouped" "analyse (strip grouped) = Inr tokens"
  shows "\<forall>t \<in> set tokens. t \<noteq> []"
proof -
  have "\<forall>t \<in> set grouped. t \<noteq> []"
    using group_nonempty[OF fetch_tokens_nonempty, of content] assms(1) by simp
  then have stripped: "\<forall>t \<in> set (strip grouped). t \<noteq> []" by (simp add: strip_def)
  from assms(2) obtain info ir flds methods where
    tables: "get_ir_renames info = Inr (ir, flds, methods)"
    and ir: "to_ir (strip grouped) ir flds methods = Inr tokens"
    by (auto simp: analyse_def bind_err_def split: sum.splits)
  from ir obtain s1 where
    loop: "to_ir_loop ir flds methods to_ir_init (strip grouped) = Inr s1"
    and tokens: "tokens = new_tokens s1"
    by (auto simp: to_ir_def bind_err_def split: sum.splits)
  have "\<forall>t \<in> set (new_tokens to_ir_init). t \<noteq> []" by (simp add: to_ir_init_def)
  from to_ir_loop_nonempty[OF loop get_ir_renames_nonempty[OF tables] stripped this] tokens
  show ?thesis by simp
qed

section \<open>The emitted output\<close>

text \<open>
  C3. In the emitted output of a run of the pipeline, a separating space stands between
  two adjacent emitted tokens exactly when both are merge-sensitive: \<open>tokens\<close> is the IR
  stream of the run, \<open>outs\<close> are the emitted tokens, one for each token of the stream, the
  final stage returns \<open>spaced outs\<close>, and the minified text is its concatenation.
\<close>

theorem emitted_spaced:
  assumes "group (fetch_tokens content) = Some grouped"
    and "analyse (strip grouped) = Inr tokens"
  shows "\<exists>outs. list_all2 (\<lambda>t m. mangle (names (final_namer tokens)) t = Inr m) tokens outs
           \<and> final_stage tokens = Inr (spaced outs)
           \<and> minify content =
               Some (Inr (concat (ir_text_loop None tokens), concat (spaced outs)))"
proof -
  have "\<forall>t \<in> set tokens. t \<noteq> []" using assms by (rule analyse_nonempty)
  then obtain outs where
    outs: "list_all2 (\<lambda>t m. mangle (names (final_namer tokens)) t = Inr m) tokens outs"
    and out: "final_stage tokens = Inr (spaced outs)"
    using final_stage_spaced_nonempty by blast
  have "minify content = Some (Inr (concat (ir_text_loop None tokens), concat (spaced outs)))"
    using assms out by (simp add: minify_def bind_err_def)
  with outs out show ?thesis by blast
qed

theorem emitted_spaced_witness:
  "minify ''int x = y0 +1;'' = Some (Inr (''int x=y0+1;'', ''int A=B+1;''))"
proof -
  let ?T = "[''int'', ''x'', ''='', ''y0'', ''+'', ''1'', '';'']"
  have grouped: "group (fetch_tokens ''int x = y0 +1;'') =
      Some [''int'', '' '', ''x'', '' '', ''='', '' '', ''y0'', '' '', ''+'', ''1'', '';'']"
    by code_simp
  have analysed: "analyse (strip [''int'', '' '', ''x'', '' '', ''='', '' '', ''y0'', '' '', ''+'', ''1'', '';'']) =
      Inr ?T"
    by code_simp
  obtain outs where
    outs: "list_all2 (\<lambda>t m. mangle (names (final_namer ?T)) t = Inr m) ?T outs"
    and res: "minify ''int x = y0 +1;'' =
        Some (Inr (concat (ir_text_loop None ?T), concat (spaced outs)))"
    using emitted_spaced[OF grouped analysed] by blast
  have "mangle (names (final_namer ?T)) ''int'' = Inr ''int''"
    "mangle (names (final_namer ?T)) ''x'' = Inr ''A''"
    "mangle (names (final_namer ?T)) ''='' = Inr ''=''"
    "mangle (names (final_namer ?T)) ''y0'' = Inr ''B''"
    "mangle (names (final_namer ?T)) ''+'' = Inr ''+''"
    "mangle (names (final_namer ?T)) ''1'' = Inr ''1''"
    "mangle (names (final_namer ?T)) '';'' = Inr '';''"
    by code_simp+
  with outs have "outs = [''int'', ''A'', ''='', ''B'', ''+'', ''1'', '';'']"
    by (auto simp: list_all2_Cons1)
  moreover have "concat (spaced [''int'', ''A'', ''='', ''B'', ''+'', ''1'', '';'']) = ''int A=B+1;''"
    by code_simp
  moreover have "concat (ir_text_loop None ?T) = ''int x=y0+1;''" by code_simp
  ultimately show ?thesis using res by simp
qed

section \<open>The struct table of the analyzer is a dictionary\<close>

lemma wf_info_update:
  assumes "wf_info info" "distinct (map fst (functions' st))"
  shows "wf_info (AList.update s st info)"
  unfolding wf_info_def
proof (intro conjI ballI)
  show "distinct (map fst (AList.update s st info))"
    using assms(1) by (simp add: wf_info_def distinct_update)
  show "has_key (AList.update s st info) None"
    using assms(1) by (simp add: wf_info_def has_key_update)
next
  fix st' assume "st' \<in> snd ` set (AList.update s st info)"
  then have "st' = st \<or> st' \<in> snd ` set info" using update_values[of s st info] by auto
  then show "distinct (map fst (functions' st'))"
    using assms by (auto simp: wf_info_def)
qed

lemma dict_get_member: "dict_get d k = Inr v \<Longrightarrow> v \<in> snd ` set d"
  by (force simp: dict_get_def split: option.splits dest: map_of_SomeD)

lemma upd_struct_wf:
  assumes "upd_struct info s g = Inr info1" "wf_info info"
    and "\<And>st. distinct (map fst (functions' st)) \<Longrightarrow> distinct (map fst (functions' (g st)))"
  shows "wf_info info1"
proof -
  from assms(1) obtain st where st: "dict_get info s = Inr st" "info1 = AList.update s (g st) info"
    by (auto simp: upd_struct_def bind_err_def split: sum.splits)
  have "distinct (map fst (functions' st))"
    using dict_get_member[OF st(1)] assms(2) by (auto simp: wf_info_def)
  then have "distinct (map fst (functions' (g st)))" by (rule assms(3))
  with assms(2) show ?thesis unfolding st(2) by (rule wf_info_update)
qed

lemma upd_function_wf:
  assumes "upd_function info s f g = Inr info1" "wf_info info"
  shows "wf_info info1"
proof -
  from assms(1) obtain st fn fr where st: "dict_get info s = Inr st"
    "info1 = AList.update s (st\<lparr>functions' := AList.update fn (g fr) (functions' st)\<rparr>) info"
    by (auto simp: upd_function_def bind_err_def split: sum.splits option.splits)
  have "distinct (map fst (functions' st))"
    using dict_get_member[OF st(1)] assms(2) by (auto simp: wf_info_def)
  then have "distinct (map fst (functions' (st\<lparr>functions' := AList.update fn (g fr) (functions' st)\<rparr>)))"
    by (simp add: distinct_update)
  with assms(2) show ?thesis unfolding st(2) by (rule wf_info_update)
qed

lemma record_args_wf:
  "record_args s tok rest = Inr s1 \<Longrightarrow> wf_info (structinfo s) \<Longrightarrow> wf_info (structinfo s1)"
  by (auto simp: record_args_def bind_err_def split: if_splits sum.splits list.splits
      dest: upd_function_wf)

lemma found_function_wf:
  assumes "found_function s tok rest = Inr s1" "wf_info (structinfo s)"
  shows "wf_info (structinfo s1)"
proof (cases "structinfo s1 = structinfo s")
  case True
  then show ?thesis using assms(2) by simp
next
  case False
  with assms(1) have "upd_struct (structinfo s) (struct s)
      (\<lambda>st. st\<lparr>functions' := AList.update tok new_Function (functions' st)\<rparr>) = Inr (structinfo s1)"
    by (auto simp: found_function_def Let_def bind_err_def split: if_splits sum.splits)
  then show ?thesis using assms(2) by (rule upd_struct_wf) (simp add: distinct_update)
qed

lemma count_in_function_wf:
  "count_in_function s tok = Inr s1 \<Longrightarrow> wf_info (structinfo s) \<Longrightarrow> wf_info (structinfo s1)"
  by (auto simp: count_in_function_def bind_err_def split: if_splits sum.splits
      dest: upd_function_wf)

lemma enter_struct_wf:
  "wf_info (structinfo s) \<Longrightarrow> wf_info (structinfo (enter_struct s tok))"
  by (simp add: enter_struct_def wf_info_update new_Struct_def)

lemma found_field_wf:
  assumes "found_field s tok = Inr s1" "wf_info (structinfo s)"
  shows "wf_info (structinfo s1)"
proof (cases "structinfo s1 = structinfo s")
  case True
  then show ?thesis using assms(2) by simp
next
  case False
  with assms(1) have "upd_struct (structinfo s) (struct s)
      (\<lambda>st. st\<lparr>fields' := AList.update tok 1 (fields' st)\<rparr>) = Inr (structinfo s1)"
    by (auto simp: found_field_def bind_err_def split: if_splits sum.splits)
  then show ?thesis using assms(2) by (rule upd_struct_wf) simp
qed

lemma count_field_wf:
  assumes "count_field s tok = Inr s1" "wf_info (structinfo s)"
  shows "wf_info (structinfo s1)"
proof -
  from assms(1) have "upd_struct (structinfo s) (struct s)
      (\<lambda>st. st\<lparr>fields' := incr_if_present (fields' st) tok\<rparr>) = Inr (structinfo s1)"
    by (auto simp: count_field_def bind_err_def split: sum.splits)
  then show ?thesis using assms(2) by (rule upd_struct_wf) simp
qed

lemma record_top_level_wf:
  assumes "record_top_level s tok = Inr s1" "wf_info (structinfo s)"
  shows "wf_info (structinfo s1)"
proof (cases "structinfo s1 = structinfo s")
  case True
  then show ?thesis using assms(2) by simp
next
  case False
  with assms(1) have "upd_struct (structinfo s) (struct s)
      (\<lambda>st. st\<lparr>top_lvl_used := top_lvl_used st @ [tok]\<rparr>) = Inr (structinfo s1)"
    by (auto simp: record_top_level_def bind_err_def split: if_splits sum.splits)
  then show ?thesis using assms(2) by (rule upd_struct_wf) simp
qed

lemma get_stats_step_wf:
  assumes "get_stats_step s tok rest = Inr s1" "wf_info (structinfo s)"
  shows "wf_info (structinfo s1)"
proof -
  from assms(1) obtain a b c d e f where steps:
    "record_args (exit_function s tok) tok rest = Inr a"
    "found_function a tok rest = Inr b"
    "count_in_function b tok = Inr c"
    "found_field (enter_struct (exit_struct c tok) tok) tok = Inr d"
    "count_field d tok = Inr e"
    "record_top_level e tok = Inr f"
    "s1 = f\<lparr>prev_prev := prev f, prev := Some tok\<rparr>"
    by (auto simp: get_stats_step_def bind_err_def split: sum.splits)
  have "wf_info (structinfo (exit_function s tok))"
    using assms(2) by (simp add: exit_function_def Let_def)
  then have "wf_info (structinfo a)" using steps(1) record_args_wf by blast
  then have "wf_info (structinfo b)" using steps(2) found_function_wf by blast
  then have "wf_info (structinfo c)" using steps(3) count_in_function_wf by blast
  then have "wf_info (structinfo (exit_struct c tok))" by (simp add: exit_struct_def Let_def)
  then have "wf_info (structinfo (enter_struct (exit_struct c tok) tok))" by (rule enter_struct_wf)
  then have "wf_info (structinfo d)" using steps(4) found_field_wf by blast
  then have "wf_info (structinfo e)" using steps(5) count_field_wf by blast
  then have "wf_info (structinfo f)" using steps(6) record_top_level_wf by blast
  then show ?thesis by (simp add: steps(7))
qed

lemma get_stats_loop_wf:
  "get_stats_loop s toks = Inr s1 \<Longrightarrow> wf_info (structinfo s) \<Longrightarrow> wf_info (structinfo s1)"
proof (induction toks arbitrary: s)
  case Nil
  then show ?case by simp
next
  case (Cons tok toks)
  from Cons.prems(1) obtain s' where
    "get_stats_step s tok toks = Inr s'" "get_stats_loop s' toks = Inr s1"
    by (auto simp: bind_err_def split: sum.splits)
  then show ?case using Cons.IH Cons.prems(2) get_stats_step_wf by blast
qed

text \<open>
  Every struct table that \<open>get_stats\<close> returns has the top level among its keys, with
  distinct function names.
\<close>

lemma get_stats_wf:
  assumes "get_stats tokens = Inr info"
  shows "\<exists>top_st. dict_get info None = Inr top_st \<and> distinct (map fst (functions' top_st))"
proof -
  from assms obtain s1 where s1: "get_stats_loop get_stats_init tokens = Inr s1" "info = structinfo s1"
    by (auto simp: get_stats_def bind_err_def split: sum.splits)
  have "wf_info (structinfo get_stats_init)"
    by (simp add: get_stats_init_def wf_info_def has_key_def new_Struct_def)
  from get_stats_loop_wf[OF s1(1) this] have wf: "wf_info info" by (simp add: s1(2))
  then obtain top_st where top: "dict_get info None = Inr top_st"
    by (auto simp: wf_info_def has_key_def dict_get_def)
  from dict_get_member[OF top] wf have "distinct (map fst (functions' top_st))"
    by (auto simp: wf_info_def)
  with top show ?thesis by blast
qed

section \<open>The assertions of the source\<close>

text \<open>The checks that the script runs before it minifies (lines 490-557) hold of the model.\<close>

lemma assert_fetch_tokens:
  "fetch_tokens ''int main() { return 0; }'' =
     [''int'', '' '', ''main'', ''('', '')'', '' '', ''{'', '' '', ''return'', '' '', ''0'', '';'', '' '', ''}'']"
  "fetch_tokens ''hehe = 1;'' = [''hehe'', '' '', ''='', '' '', ''1'', '';'']"
  "fetch_tokens ''a_very_long_variable_name'' = [''a_very_long_variable_name'']"
  "fetch_tokens (''test'' @ [CHR 0x09, CHR 0x0A] @ ''test'') = [''test'', [CHR 0x09], [CHR 0x0A], ''test'']"
  by code_simp+

lemma assert_is_name:
  "is_name ''a''" "is_name ''a_''" "is_name ''a_1''" "is_name ''__AA''" "is_name ''variable''"
  "is_name ''my_favorite_number_100000''" "is_name ''int''"
  "\<not> is_name ''123''" "\<not> is_name ''1a2b3c''" "\<not> is_name ''''" "\<not> is_name '' ''"
  "\<not> is_name [CHR 0x0A]"
  by code_simp+

lemma assert_renamable:
  "renamable ''abcdefg''" "renamable ''a''" "renamable ''a_123''"
  "\<not> renamable ''main''" "\<not> renamable ''int''" "\<not> renamable ''return''" "\<not> renamable ''1000''"
  by code_simp+

lemma assert_attach:
  "attach_eligible '')''" "attach_eligible ''+''" "attach_eligible ''{''"
  "\<not> attach_eligible ''a_name''" "\<not> attach_eligible ''1''" "\<not> attach_eligible ''main''"
  "attachable_tokens ''1'' ''+''" "attachable_tokens ''{'' ''}''" "attachable_tokens ''('' '')''"
  "attachable_tokens ''{'' ''printf''" "attachable_tokens ''coolboy99'' ''+''"
  "\<not> attachable_tokens ''int'' ''main''" "\<not> attachable_tokens ''1'' ''2''"
  "\<not> attachable_tokens ''return'' ''0''"
  by code_simp+

lemma assert_group_tokens:
  "group_tokens [''a'', ''b'', ''c'', ''d''] [''a''] [''b''] True True = Some [''ab'', ''c'', ''d'']"
  "group_tokens [''a'', ''b'', ''c'', ''d''] [''b''] [''c''] True True = Some [''a'', ''bc'', ''d'']"
  "group_tokens [''a'', ''b'', ''c'', ''d''] [''c''] [''d''] True True = Some [''a'', ''b'', ''cd'']"
  "group_tokens [''a'', ''b'', ''c'', ''d''] [''a''] [''d''] True True = Some [''abcd'']"
  "group_tokens [''a'', ''b'', ''c'', ''d''] [''c''] [''b''] True True = Some [''a'', ''b'', ''c'', ''d'']"
  "group_tokens [''a'', ''b'', ''c'', ''d''] [''b''] [''e''] True True = Some [''a'', ''b'', ''c'', ''d'']"
  "group_tokens [''a'', ''b'', ''c'', ''d''] [''b''] [''b''] True True = Some [''a'', ''b'', ''c'', ''d'']"
  "group_tokens [''a'', ''b'', ''c'', ''d''] [''a'', ''b''] [''c''] True True = Some [''abc'', ''d'']"
  "group_tokens [''a'', ''b'', ''c'', ''d''] [''a''] [''b'', ''c''] True True = Some [''abc'', ''d'']"
  "group_tokens [''a'', ''b'', ''c'', ''d''] [''a'', ''b'', ''c''] [''d''] True True = Some [''abcd'']"
  "group_tokens [''a'', ''b'', ''c'', ''d''] [''a''] [''c''] True True = Some [''abc'', ''d'']"
  "group_tokens [''a'', ''b'', ''c'', ''d''] [''a''] [''c''] False True = Some [''ab'', ''c'', ''d'']"
  "group_tokens [''a'', ''b'', ''c'', ''d''] [''c''] [''e''] True True = Some [''a'', ''b'', ''c'', ''d'']"
  "group_tokens [''a'', ''b'', ''c'', ''d''] [''e''] [''c''] True True = Some [''a'', ''b'', ''c'', ''d'']"
  by code_simp+

end
